theory Spec2Isabelle
  imports Main "HOL-Library.AList" "HOL-Library.Product_Lexorder"
begin

section \<open>Bundler gateway: data model\<close>

text \<open>
  The embedding follows \<^verbatim>\<open>apps/bundler/models.py\<close> and
  \<^verbatim>\<open>services/bundler/gateway.py\<close>. The three Django tables are lists of rows in
  storage (insertion) order. A primary key (\<^verbatim>\<open>uuid.uuid4\<close>) is a natural number, a
  timestamp is an integer number of microseconds, a JSON value is a \<open>json\<close>, and a Python
  dict is an association list with Python's update semantics (\<open>AList.update\<close>: an
  existing key keeps its position, a new key goes last).
\<close>

type_synonym uuid = nat
type_synonym datetime = int

datatype json =
    JNull
  | JInt int
  | JStr string
  | JUuid uuid \<comment> \<open>the string \<^verbatim>\<open>str(u)\<close> of a primary key\<close>
  | JList "json list"
  | JObj "(string \<times> json) list"

type_synonym jdict = "(string \<times> json) list"

datatype op_status = OpQueued | OpDispatched | OpIncluded | OpFailed | OpDropped

datatype job_status = JobQueued | JobDispatching | JobSucceeded | JobFailed | JobRetrying

fun op_status_value :: "op_status \<Rightarrow> string" where
  "op_status_value OpQueued = ''queued''"
| "op_status_value OpDispatched = ''dispatched''"
| "op_status_value OpIncluded = ''included''"
| "op_status_value OpFailed = ''failed''"
| "op_status_value OpDropped = ''dropped''"

definition op_status_values :: "op_status list" where
  "op_status_values = [OpQueued, OpDispatched, OpIncluded, OpFailed, OpDropped]"

record user_operation =
  op_id :: uuid
  chain_id :: int
  sender :: string
  wallet :: "uuid option"
  user :: "uuid option"
  user_op_hash :: string
  nonce :: string
  call_data :: "string option"
  call_gas_limit :: int
  verification_gas_limit :: int
  pre_verification_gas :: int
  max_fee_per_gas :: int
  max_priority_fee_per_gas :: int
  paymaster :: string
  op_status :: op_status
  failure_reason :: string
  op_metadata :: jdict
  queued_at :: datetime
  op_updated_at :: datetime
  completed_at :: "datetime option"

record bundler_job =
  job_id :: uuid
  job_user_operation :: uuid
  target_endpoint :: string
  job_status :: job_status
  attempt_count :: nat
  priority :: nat
  last_error :: string
  enqueued_at :: datetime
  last_attempt_at :: "datetime option"
  job_metadata :: jdict
  job_updated_at :: datetime

record user_operation_event =
  ev_id :: uuid
  ev_user_operation :: uuid
  event_type :: string
  ev_payload :: jdict
  created_at :: datetime

record store =
  operations :: "user_operation list"
  jobs :: "bundler_job list"
  events :: "user_operation_event list"

definition empty_store :: store where
  "empty_store = \<lparr>operations = [], jobs = [], events = []\<rparr>"

section \<open>The object-relational layer\<close>

text \<open>
  \<^verbatim>\<open>uuid.uuid4()\<close> returns a key that no row of the table has; the model takes the
  successor of the largest key in the table.
\<close>

definition fresh_uuid :: "uuid list \<Rightarrow> uuid" where
  "fresh_uuid ids = Suc (fold max ids 0)"

text \<open>
  \<^verbatim>\<open>Model.save(update_fields=[...])\<close> writes the named fields of the in-memory object
  to the row with the object's primary key; \<^verbatim>\<open>updated_at\<close> is \<^verbatim>\<open>auto_now\<close>, so
  naming it writes the current time.
\<close>

datatype op_field = F_status | F_failure_reason | F_completed_at | F_metadata | F_updated_at

fun write_op_field :: "datetime \<Rightarrow> user_operation \<Rightarrow> op_field \<Rightarrow> user_operation \<Rightarrow> user_operation" where
  "write_op_field now obj F_status row = row\<lparr>op_status := op_status obj\<rparr>"
| "write_op_field now obj F_failure_reason row = row\<lparr>failure_reason := failure_reason obj\<rparr>"
| "write_op_field now obj F_completed_at row = row\<lparr>completed_at := completed_at obj\<rparr>"
| "write_op_field now obj F_metadata row = row\<lparr>op_metadata := op_metadata obj\<rparr>"
| "write_op_field now obj F_updated_at row = row\<lparr>op_updated_at := now\<rparr>"

definition save_op :: "op_field list \<Rightarrow> datetime \<Rightarrow> user_operation \<Rightarrow> store \<Rightarrow> store" where
  "save_op update_fields now obj s =
     s\<lparr>operations :=
         map (\<lambda>row. if op_id row = op_id obj
                     then fold (write_op_field now obj) update_fields row else row)
             (operations s)\<rparr>"

datatype job_field = J_status | J_attempt_count | J_last_attempt_at | J_last_error | J_updated_at

fun write_job_field :: "datetime \<Rightarrow> bundler_job \<Rightarrow> job_field \<Rightarrow> bundler_job \<Rightarrow> bundler_job" where
  "write_job_field now obj J_status row = row\<lparr>job_status := job_status obj\<rparr>"
| "write_job_field now obj J_attempt_count row = row\<lparr>attempt_count := attempt_count obj\<rparr>"
| "write_job_field now obj J_last_attempt_at row = row\<lparr>last_attempt_at := last_attempt_at obj\<rparr>"
| "write_job_field now obj J_last_error row = row\<lparr>last_error := last_error obj\<rparr>"
| "write_job_field now obj J_updated_at row = row\<lparr>job_updated_at := now\<rparr>"

definition save_job :: "job_field list \<Rightarrow> datetime \<Rightarrow> bundler_job \<Rightarrow> store \<Rightarrow> store" where
  "save_job update_fields now obj s =
     s\<lparr>jobs :=
         map (\<lambda>row. if job_id row = job_id obj
                     then fold (write_job_field now obj) update_fields row else row)
             (jobs s)\<rparr>"

text \<open>\<^verbatim>\<open>UserOperationEvent.objects.create\<close>: a new row with a fresh key, stamped now.\<close>

definition create_event :: "datetime \<Rightarrow> uuid \<Rightarrow> string \<Rightarrow> jdict \<Rightarrow> store \<Rightarrow> store" where
  "create_event now uo_id etype pl s =
     s\<lparr>events := events s @
         [\<lparr>ev_id = fresh_uuid (map ev_id (events s)), ev_user_operation = uo_id,
           event_type = etype, ev_payload = pl, created_at = now\<rparr>]\<rparr>"

definition get_operation :: "store \<Rightarrow> uuid \<Rightarrow> user_operation option" where
  "get_operation s i = find (\<lambda>row. op_id row = i) (operations s)"

definition get_operation_by_hash :: "store \<Rightarrow> string \<Rightarrow> user_operation option" where
  "get_operation_by_hash s h = find (\<lambda>row. user_op_hash row = h) (operations s)"

definition get_job :: "store \<Rightarrow> uuid \<Rightarrow> bundler_job option" where
  "get_job s i = find (\<lambda>row. job_id row = i) (jobs s)"

text \<open>
  \<^verbatim>\<open>select_related('user_operation')\<close> joins each job with its operation as the store
  holds it when the query runs; the foreign key is not nullable, so the join is an inner
  join and a job without its operation is not returned.
\<close>

definition select_related :: "store \<Rightarrow> bundler_job list \<Rightarrow> (bundler_job \<times> user_operation) list" where
  "select_related s js =
     List.map_filter (\<lambda>j. map_option (Pair j) (get_operation s (job_user_operation j))) js"

section \<open>\<^verbatim>\<open>UserOperation.mark_status\<close>\<close>

text \<open>
  The status argument is a string; one that is not among the choices becomes
  \<^verbatim>\<open>failed\<close>. The object is returned as the method leaves it.
\<close>

definition valid_op_status :: "string \<Rightarrow> op_status" where
  "valid_op_status st =
     (case find (\<lambda>v. op_status_value v = st) op_status_values of
        Some v \<Rightarrow> v
      | None \<Rightarrow> OpFailed)"

definition mark_status :: "datetime \<Rightarrow> string \<Rightarrow> string option \<Rightarrow> user_operation \<Rightarrow> store
    \<Rightarrow> user_operation \<times> store" where
  "mark_status now st reason self s =
     (let valid_status = valid_op_status st;
          self1 = self\<lparr>op_status := valid_status\<rparr>;
          self2 = (case reason of
                     None \<Rightarrow> self1
                   | Some r \<Rightarrow> if r \<noteq> [] then self1\<lparr>failure_reason := r\<rparr> else self1);
          self3 = (if valid_status \<in> {OpIncluded, OpFailed, OpDropped}
                   then self2\<lparr>completed_at := Some now\<rparr> else self2)
      in (self3, save_op [F_status, F_failure_reason, F_completed_at, F_updated_at] now self3 s))"

section \<open>\<^verbatim>\<open>BundlerGatewayService.queue_operation\<close>\<close>

text \<open>
  The payload is the dict the router builds (\<^verbatim>\<open>_coerce_payload\<close>): \<^verbatim>\<open>call_data\<close> as
  bytes and the five gas fields as integers, each possibly absent.
\<close>

record op_payload =
  p_call_data :: "string option"
  p_call_gas_limit :: "int option"
  p_verification_gas_limit :: "int option"
  p_pre_verification_gas :: "int option"
  p_max_fee_per_gas :: "int option"
  p_max_priority_fee_per_gas :: "int option"

definition empty_payload :: op_payload where
  "empty_payload =
     \<lparr>p_call_data = None, p_call_gas_limit = None, p_verification_gas_limit = None,
      p_pre_verification_gas = None, p_max_fee_per_gas = None,
      p_max_priority_fee_per_gas = None\<rparr>"

record queue_args =
  arg_chain_id :: int
  arg_sender :: string
  arg_user_op_hash :: string
  arg_nonce :: string
  arg_endpoint :: string
  arg_payload :: "op_payload option"
  arg_metadata :: "jdict option"

record queued_operation =
  qo_user_operation :: user_operation
  qo_bundler_job :: bundler_job

text \<open>\<^verbatim>\<open>int(payload.get(k, 0) or 0)\<close>\<close>

definition gas_value :: "int option \<Rightarrow> int" where
  "gas_value v = (case v of None \<Rightarrow> 0 | Some n \<Rightarrow> if n = 0 then 0 else n)"

definition new_operation :: "datetime \<Rightarrow> queue_args \<Rightarrow> store \<Rightarrow> user_operation" where
  "new_operation now a s =
     (let payload = (case arg_payload a of None \<Rightarrow> empty_payload | Some p \<Rightarrow> p);
          metadata = (case arg_metadata a of None \<Rightarrow> [] | Some m \<Rightarrow> m)
      in \<lparr>op_id = fresh_uuid (map op_id (operations s)),
          chain_id = arg_chain_id a,
          sender = arg_sender a,
          wallet = None,
          user = None,
          user_op_hash = arg_user_op_hash a,
          nonce = arg_nonce a,
          call_data = p_call_data payload,
          call_gas_limit = gas_value (p_call_gas_limit payload),
          verification_gas_limit = gas_value (p_verification_gas_limit payload),
          pre_verification_gas = gas_value (p_pre_verification_gas payload),
          max_fee_per_gas = gas_value (p_max_fee_per_gas payload),
          max_priority_fee_per_gas = gas_value (p_max_priority_fee_per_gas payload),
          paymaster = [],
          op_status = OpQueued,
          failure_reason = [],
          op_metadata = metadata,
          queued_at = now,
          op_updated_at = now,
          completed_at = None\<rparr>)"

definition get_or_create :: "datetime \<Rightarrow> queue_args \<Rightarrow> store \<Rightarrow> user_operation \<times> store" where
  "get_or_create now a s =
     (case get_operation_by_hash s (arg_user_op_hash a) of
        Some uo \<Rightarrow> (uo, s)
      | None \<Rightarrow>
          (let uo = new_operation now a s
           in (uo, s\<lparr>operations := operations s @ [uo]\<rparr>)))"

definition new_job :: "datetime \<Rightarrow> uuid \<Rightarrow> string \<Rightarrow> store \<Rightarrow> bundler_job" where
  "new_job now uo_id endpoint s =
     \<lparr>job_id = fresh_uuid (map job_id (jobs s)),
      job_user_operation = uo_id,
      target_endpoint = endpoint,
      job_status = JobQueued,
      attempt_count = 0,
      priority = 100,
      last_error = [],
      enqueued_at = now,
      last_attempt_at = None,
      job_metadata = [(''attempt_context'', JStr ''initial'')],
      job_updated_at = now\<rparr>"

definition queue_operation :: "datetime \<Rightarrow> queue_args \<Rightarrow> store \<Rightarrow> queued_operation \<times> store" where
  "queue_operation now a s =
     (let (uo, s1) = get_or_create now a s;
          (uo2, s2) =
            (if op_status uo \<noteq> OpQueued
             then (let uo' = uo\<lparr>op_status := OpQueued, failure_reason := [],
                                 completed_at := None\<rparr>
                   in (uo'\<lparr>op_updated_at := now\<rparr>,
                       save_op [F_status, F_failure_reason, F_completed_at, F_updated_at]
                         now uo' s1))
             else (uo, s1));
          job = new_job now (op_id uo2) (arg_endpoint a) s2;
          s3 = s2\<lparr>jobs := jobs s2 @ [job]\<rparr>;
          s4 = create_event now (op_id uo2) ''queued'' [(''endpoint'', JStr (arg_endpoint a))] s3
      in (\<lparr>qo_user_operation = uo2, qo_bundler_job = job\<rparr>, s4))"

section \<open>\<^verbatim>\<open>BundlerGatewayService.dispatch_batch\<close>\<close>

text \<open>
  \<^verbatim>\<open>order_by\<close> is a stable sort of the rows in storage order: where two rows have the
  same key the database leaves their order open, and the model keeps the storage order.
  \<^verbatim>\<open>batch_size\<close> and \<^verbatim>\<open>limit\<close> are slice bounds, which the query layer accepts only
  when they are not negative, hence natural numbers.
\<close>

definition dispatch_eligible :: "bundler_job \<Rightarrow> bool" where
  "dispatch_eligible j \<longleftrightarrow> job_status j \<in> {JobQueued, JobRetrying}"

definition dispatch_key :: "bundler_job \<times> user_operation \<Rightarrow> nat \<times> datetime" where
  "dispatch_key p = (priority (fst p), enqueued_at (fst p))"

definition queued_jobs :: "nat \<Rightarrow> store \<Rightarrow> (bundler_job \<times> user_operation) list" where
  "queued_jobs batch_size s =
     take batch_size
       (sort_key dispatch_key (select_related s (filter dispatch_eligible (jobs s))))"

definition dispatch_job :: "datetime \<Rightarrow> bundler_job \<times> user_operation \<Rightarrow> store
    \<Rightarrow> (bundler_job \<times> user_operation) \<times> store" where
  "dispatch_job now p s =
     (let job = (fst p)\<lparr>job_status := JobDispatching,
                        attempt_count := attempt_count (fst p) + 1,
                        last_attempt_at := Some now,
                        last_error := []\<rparr>;
          s1 = save_job [J_status, J_attempt_count, J_last_attempt_at, J_last_error, J_updated_at]
                 now job s;
          uo = (snd p)\<lparr>op_status := OpDispatched\<rparr>;
          s2 = save_op [F_status, F_updated_at] now uo s1;
          s3 = create_event now (op_id uo) ''dispatching''
                 [(''job_id'', JUuid (job_id job)), (''endpoint'', JStr (target_endpoint job))] s2
      in ((job\<lparr>job_updated_at := now\<rparr>, uo\<lparr>op_updated_at := now\<rparr>), s3))"

fun dispatch_loop :: "datetime \<Rightarrow> (bundler_job \<times> user_operation) list \<Rightarrow> store
    \<Rightarrow> (bundler_job \<times> user_operation) list \<times> store" where
  "dispatch_loop now [] s = ([], s)"
| "dispatch_loop now (p # ps) s =
     (let (c, s1) = dispatch_job now p s;
          (claimed, s2) = dispatch_loop now ps s1
      in (c # claimed, s2))"

definition dispatch_batch :: "datetime \<Rightarrow> nat \<Rightarrow> store \<Rightarrow> jdict \<times> store" where
  "dispatch_batch now batch_size s =
     (let (claimed, s') = dispatch_loop now (queued_jobs batch_size s) s
      in if claimed = []
         then ([(''count'', JInt 0), (''job_ids'', JList [])], s')
         else ([(''count'', JInt (int (length claimed))),
                (''job_ids'', JList (map (\<lambda>c. JUuid (job_id (fst c))) claimed)),
                (''operation_hashes'', JList (map (\<lambda>c. JStr (user_op_hash (snd c))) claimed))],
               s'))"

section \<open>\<^verbatim>\<open>BundlerGatewayService.reconcile_inflight\<close>\<close>

definition inflight_timeout :: datetime where
  "inflight_timeout = 5 * 60 * 1000000"

definition stale :: "datetime \<Rightarrow> bundler_job \<Rightarrow> bool" where
  "stale cutoff j \<longleftrightarrow>
     job_status j = JobDispatching \<and>
     (case last_attempt_at j of None \<Rightarrow> False | Some t \<Rightarrow> t < cutoff)"

definition inflight_key :: "bundler_job \<times> user_operation \<Rightarrow> datetime" where
  "inflight_key p = (case last_attempt_at (fst p) of None \<Rightarrow> 0 | Some t \<Rightarrow> t)"

definition inflight :: "datetime \<Rightarrow> nat \<Rightarrow> store \<Rightarrow> (bundler_job \<times> user_operation) list" where
  "inflight now limit s =
     take limit
       (sort_key inflight_key
          (select_related s (filter (stale (now - inflight_timeout)) (jobs s))))"

text \<open>One pass of the loop body; the flag says whether the job was failed.\<close>

definition reconcile_job :: "datetime \<Rightarrow> bundler_job \<times> user_operation \<Rightarrow> store \<Rightarrow> bool \<times> store" where
  "reconcile_job now p s =
     (if attempt_count (fst p) \<ge> 3
      then (let job = (fst p)\<lparr>job_status := JobFailed,
                              last_error := (if last_error (fst p) \<noteq> [] then last_error (fst p)
                                             else ''Dispatch attempts exceeded'')\<rparr>;
                s1 = save_job [J_status, J_last_error, J_updated_at] now job s;
                (uo, s2) = mark_status now (op_status_value OpFailed) (Some (last_error job))
                             (snd p) s1;
                s3 = create_event now (op_id uo) ''failed''
                       [(''job_id'', JUuid (job_id job)), (''reason'', JStr (last_error job))] s2
            in (True, s3))
      else (let job = (fst p)\<lparr>job_status := JobRetrying\<rparr>;
                s1 = save_job [J_status, J_updated_at] now job s;
                uo = (snd p)\<lparr>op_status := OpQueued\<rparr>;
                s2 = save_op [F_status, F_updated_at] now uo s1;
                s3 = create_event now (op_id uo) ''requeued''
                       [(''job_id'', JUuid (job_id job))] s2
            in (False, s3)))"

fun reconcile_loop :: "datetime \<Rightarrow> (bundler_job \<times> user_operation) list \<Rightarrow> store
    \<Rightarrow> (nat \<times> nat) \<times> store" where
  "reconcile_loop now [] s = ((0, 0), s)"
| "reconcile_loop now (p # ps) s =
     (let (was_failed, s1) = reconcile_job now p s;
          ((requeued, failed), s2) = reconcile_loop now ps s1
      in (if was_failed then (requeued, failed + 1) else (requeued + 1, failed), s2))"

definition reconcile_inflight :: "datetime \<Rightarrow> nat \<Rightarrow> store \<Rightarrow> jdict \<times> store" where
  "reconcile_inflight now limit s =
     (let infl = inflight now limit s
      in if infl = []
         then ([(''processed'', JInt 0), (''requeued'', JInt 0), (''failed'', JInt 0)], s)
         else (let ((requeued, failed), s') = reconcile_loop now infl s
               in ([(''processed'', JInt (int (length infl))),
                    (''requeued'', JInt (int requeued)),
                    (''failed'', JInt (int failed))], s')))"

section \<open>\<^verbatim>\<open>BundlerGatewayService.mark_included\<close>\<close>

datatype gateway_error = DoesNotExist

definition mark_included :: "datetime \<Rightarrow> uuid \<Rightarrow> string \<Rightarrow> store \<Rightarrow> gateway_error + store" where
  "mark_included now jid tx_hash s =
     (case select_related s (filter (\<lambda>row. job_id row = jid) (jobs s)) of
        [] \<Rightarrow> Inl DoesNotExist
      | (j, u) # _ \<Rightarrow>
          (let job = j\<lparr>job_status := JobSucceeded, last_error := []\<rparr>;
               s1 = save_job [J_status, J_last_error, J_updated_at] now job s;
               uo = u\<lparr>op_status := OpIncluded,
                       op_metadata := AList.update ''tx_hash'' (JStr tx_hash) (op_metadata u),
                       completed_at := Some now\<rparr>;
               s2 = save_op [F_status, F_metadata, F_completed_at, F_updated_at] now uo s1;
               s3 = create_event now (op_id uo) ''included''
                      [(''job_id'', JUuid (job_id job)), (''tx_hash'', JStr tx_hash)] s2
           in Inr s3))"

section \<open>The gateway as a transition system\<close>

datatype gateway_call =
    QueueOperation queue_args
  | DispatchBatch nat
  | ReconcileInflight nat
  | MarkIncluded uuid string

fun gateway_step :: "datetime \<Rightarrow> gateway_call \<Rightarrow> store \<Rightarrow> store" where
  "gateway_step now (QueueOperation a) s = snd (queue_operation now a s)"
| "gateway_step now (DispatchBatch n) s = snd (dispatch_batch now n s)"
| "gateway_step now (ReconcileInflight n) s = snd (reconcile_inflight now n s)"
| "gateway_step now (MarkIncluded jid tx) s =
     (case mark_included now jid tx s of Inl e \<Rightarrow> s | Inr s' \<Rightarrow> s')"

inductive reachable :: "store \<Rightarrow> bool" where
  reachable_empty: "reachable empty_store"
| reachable_step: "reachable s \<Longrightarrow> reachable (gateway_step now c s)"

fun run :: "(datetime \<times> gateway_call) list \<Rightarrow> store \<Rightarrow> store" where
  "run [] s = s"
| "run (tc # cs) s = run cs (gateway_step (fst tc) (snd tc) s)"

section \<open>Integrity constraints of the schema\<close>

text \<open>
  The primary keys, the \<^verbatim>\<open>unique=True\<close> of \<^verbatim>\<open>user_op_hash\<close> and the foreign key of
  \<^verbatim>\<open>BundlerJob.user_operation\<close>. They hold in every reachable store.
\<close>

definition fk_ok :: "store \<Rightarrow> bool" where
  "fk_ok s \<longleftrightarrow> list_all (\<lambda>j. job_user_operation j \<in> set (map op_id (operations s))) (jobs s)"

definition wf_store :: "store \<Rightarrow> bool" where
  "wf_store s \<longleftrightarrow>
     distinct (map job_id (jobs s)) \<and> distinct (map op_id (operations s)) \<and>
     distinct (map user_op_hash (operations s)) \<and> fk_ok s"

section \<open>What one pass of a loop writes to a row\<close>

definition dispatched_job_row :: "datetime \<Rightarrow> bundler_job \<Rightarrow> bundler_job \<Rightarrow> bundler_job" where
  "dispatched_job_row now j row =
     (if job_id row = job_id j
      then row\<lparr>job_status := JobDispatching, attempt_count := attempt_count j + 1,
               last_attempt_at := Some now, last_error := [], job_updated_at := now\<rparr>
      else row)"

definition dispatched_op_row :: "datetime \<Rightarrow> uuid \<Rightarrow> user_operation \<Rightarrow> user_operation" where
  "dispatched_op_row now i row =
     (if op_id row = i then row\<lparr>op_status := OpDispatched, op_updated_at := now\<rparr> else row)"

definition failure_message :: "bundler_job \<Rightarrow> string" where
  "failure_message j = (if last_error j \<noteq> [] then last_error j else ''Dispatch attempts exceeded'')"

definition reconciled_job_row :: "datetime \<Rightarrow> bundler_job \<Rightarrow> bundler_job \<Rightarrow> bundler_job" where
  "reconciled_job_row now j row =
     (if job_id row = job_id j
      then (if attempt_count j \<ge> 3
            then row\<lparr>job_status := JobFailed, last_error := failure_message j,
                     job_updated_at := now\<rparr>
            else row\<lparr>job_status := JobRetrying, job_updated_at := now\<rparr>)
      else row)"

definition reconciled_op_row :: "datetime \<Rightarrow> bundler_job \<times> user_operation \<Rightarrow> user_operation
    \<Rightarrow> user_operation" where
  "reconciled_op_row now p row =
     (if op_id row = op_id (snd p)
      then (if attempt_count (fst p) \<ge> 3
            then row\<lparr>op_status := OpFailed, failure_reason := failure_message (fst p),
                     completed_at := Some now, op_updated_at := now\<rparr>
            else row\<lparr>op_status := OpQueued, op_updated_at := now\<rparr>)
      else row)"

text \<open>An event without its generated key.\<close>

definition ev_core :: "user_operation_event \<Rightarrow> uuid \<times> string \<times> jdict \<times> datetime" where
  "ev_core e = (ev_user_operation e, event_type e, ev_payload e, created_at e)"

definition new_events :: "store \<Rightarrow> store \<Rightarrow> (uuid \<times> string \<times> jdict \<times> datetime) list" where
  "new_events s s' = map ev_core (drop (length (events s)) (events s'))"

definition dispatching_event :: "datetime \<Rightarrow> bundler_job \<Rightarrow> uuid \<times> string \<times> jdict \<times> datetime" where
  "dispatching_event now j =
     (job_user_operation j, ''dispatching'',
      [(''job_id'', JUuid (job_id j)), (''endpoint'', JStr (target_endpoint j))], now)"

definition reconcile_event :: "datetime \<Rightarrow> bundler_job \<Rightarrow> uuid \<times> string \<times> jdict \<times> datetime" where
  "reconcile_event now j =
     (if attempt_count j \<ge> 3
      then (job_user_operation j, ''failed'',
            [(''job_id'', JUuid (job_id j)), (''reason'', JStr (failure_message j))], now)
      else (job_user_operation j, ''requeued'', [(''job_id'', JUuid (job_id j))], now))"

section \<open>The selections as the specification words them\<close>

definition job_key :: "bundler_job \<Rightarrow> nat \<times> datetime" where
  "job_key j = (priority j, enqueued_at j)"

definition spec_dispatch_selection :: "nat \<Rightarrow> store \<Rightarrow> bundler_job list" where
  "spec_dispatch_selection batch_size s =
     take batch_size (sort_key job_key (filter dispatch_eligible (jobs s)))"

definition attempt_key :: "bundler_job \<Rightarrow> datetime" where
  "attempt_key j = (case last_attempt_at j of None \<Rightarrow> 0 | Some t \<Rightarrow> t)"

definition spec_stale_selection :: "datetime \<Rightarrow> nat \<Rightarrow> store \<Rightarrow> bundler_job list" where
  "spec_stale_selection now limit s =
     take limit (sort_key attempt_key (filter (stale (now - 300000000)) (jobs s)))"

section \<open>A sample request\<close>

definition sample_args :: queue_args where
  "sample_args =
     \<lparr>arg_chain_id = 4202, arg_sender = ''0x1234'', arg_user_op_hash = ''0xabc123'',
      arg_nonce = ''1'', arg_endpoint = ''https://bundler.mock/rpc'',
      arg_payload = None, arg_metadata = Some [(''source'', JStr ''test'')]\<rparr>"

section \<open>Two jobs of one operation\<close>

text \<open>
  Both traces ingest the same hash twice, so that the operation has two jobs. In the first
  the older job runs out of attempts before the second is dispatched; in the second the
  older job is dispatched for the third time after the younger.
\<close>

definition exhausted_then_fresh_store :: store where
  "exhausted_then_fresh_store =
     run [(0, QueueOperation sample_args), (1000000, DispatchBatch 10),
          (302000000, ReconcileInflight 50), (303000000, DispatchBatch 10),
          (604000000, ReconcileInflight 50), (605000000, DispatchBatch 10),
          (606000000, QueueOperation sample_args), (607000000, DispatchBatch 10)]
       empty_store"

definition fresh_then_exhausted_store :: store where
  "fresh_then_exhausted_store =
     run [(0, QueueOperation sample_args), (1000000, DispatchBatch 10),
          (302000000, ReconcileInflight 50), (303000000, DispatchBatch 10),
          (304000000, QueueOperation sample_args), (500000000, DispatchBatch 10),
          (700000000, ReconcileInflight 50), (701000000, DispatchBatch 10)]
       empty_store"

section \<open>Three jobs with priorities 5, 1, 3\<close>

definition priority_store :: store where
  "priority_store =
     (let s = run [(0, QueueOperation sample_args), (1, QueueOperation sample_args),
                   (2, QueueOperation sample_args)] empty_store
      in s\<lparr>jobs := map (\<lambda>j. j\<lparr>priority := [0, 5, 1, 3] ! job_id j\<rparr>) (jobs s)\<rparr>)"

section \<open>One queued operation\<close>

definition queued_store :: store where
  "queued_store = run [(0, QueueOperation sample_args)] empty_store"

text \<open>The fields of an operation that a re-ingestion may write, blanked.\<close>

definition reset_fields_erased :: "user_operation \<Rightarrow> user_operation" where
  "reset_fields_erased row =
     row\<lparr>op_status := OpQueued, failure_reason := [], completed_at := None, op_updated_at := 0\<rparr>"

definition other_args :: queue_args where
  "other_args =
     \<lparr>arg_chain_id = 1, arg_sender = ''0xffff'', arg_user_op_hash = ''0xabc123'',
      arg_nonce = ''77'', arg_endpoint = ''https://other.mock/rpc'',
      arg_payload = Some \<lparr>p_call_data = Some ''ab'', p_call_gas_limit = Some 21000,
                           p_verification_gas_limit = None, p_pre_verification_gas = None,
                           p_max_fee_per_gas = Some 5, p_max_priority_fee_per_gas = None\<rparr>,
      arg_metadata = Some [(''source'', JStr ''again'')]\<rparr>"

definition failed_store :: store where
  "failed_store =
     run [(0, QueueOperation sample_args), (1000000, DispatchBatch 10),
          (302000000, ReconcileInflight 50), (303000000, DispatchBatch 10),
          (604000000, ReconcileInflight 50), (605000000, DispatchBatch 10),
          (906000000, ReconcileInflight 50)]
       empty_store"
text \<open>What \<^verbatim>\<open>mark_included\<close> writes to a row.\<close>

definition included_job_row :: "datetime \<Rightarrow> uuid \<Rightarrow> bundler_job \<Rightarrow> bundler_job" where
  "included_job_row now jid row =
     (if job_id row = jid
      then row\<lparr>job_status := JobSucceeded, last_error := [], job_updated_at := now\<rparr>
      else row)"

definition included_op_row :: "datetime \<Rightarrow> string \<Rightarrow> user_operation \<Rightarrow> user_operation
    \<Rightarrow> user_operation" where
  "included_op_row now tx u row =
     (if op_id row = op_id u
      then row\<lparr>op_status := OpIncluded,
               op_metadata := AList.update ''tx_hash'' (JStr tx) (op_metadata u),
               completed_at := Some now, op_updated_at := now\<rparr>
      else row)"

section \<open>Two exhausted jobs of one operation, and an included operation\<close>

definition both_exhausted_store :: store where
  "both_exhausted_store =
     run [(0, QueueOperation sample_args), (1, QueueOperation sample_args),
          (1000000, DispatchBatch 10), (302000000, ReconcileInflight 50),
          (303000000, DispatchBatch 10), (604000000, ReconcileInflight 50),
          (605000000, DispatchBatch 10)]
       empty_store"

definition included_store :: store where
  "included_store =
     run [(0, QueueOperation sample_args), (1000000, DispatchBatch 10),
          (2000000, MarkIncluded 1 ''0xAA'')]
       empty_store"

section \<open>Which operations a call writes\<close>

text \<open>
  The operation is the one whose hash the call ingests, or one of whose jobs the call
  claims or examines. \<^verbatim>\<open>mark_included\<close> only ever writes the status
  \<^verbatim>\<open>included\<close>.
\<close>

fun touches_operation :: "datetime \<Rightarrow> gateway_call \<Rightarrow> store \<Rightarrow> user_operation \<Rightarrow> bool" where
  "touches_operation now (QueueOperation a) s u \<longleftrightarrow> user_op_hash u = arg_user_op_hash a"
| "touches_operation now (DispatchBatch n) s u \<longleftrightarrow>
     op_id u \<in> set (map job_user_operation (spec_dispatch_selection n s))"
| "touches_operation now (ReconcileInflight n) s u \<longleftrightarrow>
     op_id u \<in> set (map job_user_operation (spec_stale_selection now n s))"
| "touches_operation now (MarkIncluded jid tx) s u \<longleftrightarrow> False"

section \<open>An included operation with a second job\<close>

definition included_with_inflight_store :: store where
  "included_with_inflight_store =
     run [(0, QueueOperation sample_args), (1, QueueOperation sample_args),
          (1000000, DispatchBatch 10), (2000000, MarkIncluded 1 ''0xAA'')]
       empty_store"

definition included_with_queued_store :: store where
  "included_with_queued_store =
     run [(0, QueueOperation sample_args), (1, QueueOperation sample_args),
          (1000000, DispatchBatch 1), (2000000, MarkIncluded 1 ''0xAA'')]
       empty_store"

text \<open>One half of the completion invariant: a terminal operation has its completion time.\<close>

definition terminal_completed :: "user_operation \<Rightarrow> bool" where
  "terminal_completed u \<longleftrightarrow>
     (op_status u \<in> {OpIncluded, OpFailed, OpDropped} \<longrightarrow> completed_at u \<noteq> None)"

section \<open>Basic facts\<close>

lemma fold_max_ge_init: "a \<le> fold max ids (a::nat)"
  by (induction ids arbitrary: a) (auto intro: order_trans [OF max.cobounded2])

lemma fold_max_ge_elem: "x \<in> set ids \<Longrightarrow> x \<le> fold max ids (a::nat)"
proof (induction ids arbitrary: a)
  case Nil
  then show ?case by simp
next
  case (Cons y ys)
  show ?case
  proof (cases "x = y")
    case True
    have "y \<le> max y a" by simp
    also have "\<dots> \<le> fold max ys (max y a)" by (rule fold_max_ge_init)
    finally show ?thesis using True by simp
  next
    case False
    with Cons show ?thesis by simp
  qed
qed

lemma fresh_uuid_notin: "fresh_uuid ids \<notin> set ids"
proof
  assume "fresh_uuid ids \<in> set ids"
  then have "fresh_uuid ids \<le> fold max ids 0" by (rule fold_max_ge_elem)
  then show False by (simp add: fresh_uuid_def)
qed

lemma fold_map_pointwise: "fold (\<lambda>p. map (g p)) ps xs = map (fold g ps) xs"
  by (induction ps arbitrary: xs) (simp_all add: comp_def)

lemma save_job_frame [simp]:
  "operations (save_job fs now obj s) = operations s"
  "events (save_job fs now obj s) = events s"
  by (simp_all add: save_job_def)

lemma save_op_frame [simp]:
  "jobs (save_op fs now obj s) = jobs s"
  "events (save_op fs now obj s) = events s"
  by (simp_all add: save_op_def)

lemma create_event_frame [simp]:
  "jobs (create_event now i ty pl s) = jobs s"
  "operations (create_event now i ty pl s) = operations s"
  by (simp_all add: create_event_def)

subsection \<open>Folding row updates\<close>

lemma fold_row_untouched:
  "\<forall>p \<in> set ps. g p row = row \<Longrightarrow> fold g ps row = row"
  by (induction ps) simp_all

lemma fold_row_once:
  assumes "distinct (map k ps)" and "p \<in> set ps" and "key row = k p"
    and untouched: "\<And>q r. key r \<noteq> k q \<Longrightarrow> g q r = r"
    and keeps: "\<And>q r. key (g q r) = key r"
  shows "fold g ps row = g p row"
  using assms(1-3)
proof (induction ps arbitrary: row)
  case Nil
  then show ?case by simp
next
  case (Cons q qs)
  show ?case
  proof (cases "q = p")
    case True
    have "\<forall>q' \<in> set qs. g q' (g p row) = g p row"
    proof
      fix q' assume "q' \<in> set qs"
      with Cons.prems(1) True have "k q' \<noteq> k p" by (auto simp: image_iff)
      then have "key (g p row) \<noteq> k q'" using keeps Cons.prems(3) by simp
      then show "g q' (g p row) = g p row" by (rule untouched)
    qed
    then have "fold g qs (g p row) = g p row" by (rule fold_row_untouched)
    with True show ?thesis by simp
  next
    case False
    with Cons.prems have mem: "p \<in> set qs" and ne: "k q \<noteq> k p" by auto
    from ne Cons.prems(3) have "g q row = row" by (intro untouched) simp
    moreover have "fold g qs row = g p row"
      using Cons.prems(1) mem Cons.prems(3) by (intro Cons.IH) simp_all
    ultimately show ?thesis by simp
  qed
qed

lemma fold_row_last:
  assumes "\<forall>q \<in> set ys. k q \<noteq> key row"
    and untouched: "\<And>q r. key r \<noteq> k q \<Longrightarrow> g q r = r"
    and keeps: "\<And>q r. key (g q r) = key r"
  shows "fold g (xs @ p # ys) row = g p (fold g xs row)"
proof -
  have k: "key (g p (fold g xs row)) = key row"
    by (induction xs arbitrary: row) (simp_all add: keeps)
  have "\<forall>q \<in> set ys. g q (g p (fold g xs row)) = g p (fold g xs row)"
    using assms(1) k untouched by metis
  then have "fold g ys (g p (fold g xs row)) = g p (fold g xs row)"
    by (rule fold_row_untouched)
  then show ?thesis by simp
qed

lemma fold_keeps:
  assumes "\<And>q r. key (g q r) = key r"
  shows "key (fold g ps row) = key row"
  by (induction ps arbitrary: row) (simp_all add: assms)

lemma find_map_keeps:
  assumes "\<And>r. key (G r) = key r"
  shows "find (\<lambda>r. key r = i) (map G rows) = map_option G (find (\<lambda>r. key r = i) rows)"
  by (induction rows) (simp_all add: assms)

lemma find_distinct_key:
  "distinct (map key rows) \<Longrightarrow> r \<in> set rows \<Longrightarrow> find (\<lambda>x. key x = key r) rows = Some r"
  by (induction rows) (auto simp: image_iff)

subsection \<open>The join\<close>

lemma get_operation_Some:
  "get_operation s i = Some u \<Longrightarrow> op_id u = i \<and> u \<in> set (operations s)"
  by (auto simp: get_operation_def find_Some_iff)

lemma get_operation_None: "get_operation s i = None \<longleftrightarrow> i \<notin> set (map op_id (operations s))"
  by (auto simp: get_operation_def find_None_iff)

lemma select_related_simps:
  "select_related s [] = []"
  "select_related s (j # js) =
     (case get_operation s (job_user_operation j) of
        None \<Rightarrow> select_related s js
      | Some u \<Rightarrow> (j, u) # select_related s js)"
  by (simp_all add: select_related_def List.map_filter_def split: option.splits)

lemma select_related_mem:
  "p \<in> set (select_related s js) \<Longrightarrow>
     fst p \<in> set js \<and> get_operation s (job_user_operation (fst p)) = Some (snd p)"
  by (induction js) (auto simp: select_related_simps split: option.splits)

lemma select_related_fst:
  "fk_ok s \<Longrightarrow> set js \<subseteq> set (jobs s) \<Longrightarrow> map fst (select_related s js) = js"
proof (induction js)
  case Nil
  then show ?case by (simp add: select_related_simps)
next
  case (Cons j js)
  from Cons.prems have "job_user_operation j \<in> set (map op_id (operations s))"
    by (auto simp: fk_ok_def list_all_iff)
  then obtain u where "get_operation s (job_user_operation j) = Some u"
    using get_operation_None [of s "job_user_operation j"] by (cases "get_operation s (job_user_operation j)") auto
  moreover have "map fst (select_related s js) = js" using Cons by simp
  ultimately show ?case by (simp add: select_related_simps)
qed

lemma map_fst_insort_key:
  "map fst (insort_key (\<lambda>p. k (fst p)) x xs) = insort_key k (fst x) (map fst xs)"
  by (induction xs) simp_all

lemma map_fst_sort_key:
  "map fst (sort_key (\<lambda>p. k (fst p)) xs) = sort_key k (map fst xs)"
  by (induction xs) (simp_all add: map_fst_insort_key)

lemma queued_jobs_fst:
  assumes "fk_ok s"
  shows "map fst (queued_jobs n s) = spec_dispatch_selection n s"
proof -
  have key: "dispatch_key = (\<lambda>p. job_key (fst p))"
    by (simp add: fun_eq_iff dispatch_key_def job_key_def)
  have "map fst (select_related s (filter dispatch_eligible (jobs s))) =
      filter dispatch_eligible (jobs s)"
    by (rule select_related_fst [OF assms]) simp
  then show ?thesis
    unfolding queued_jobs_def spec_dispatch_selection_def key
    by (simp add: take_map [symmetric] map_fst_sort_key)
qed

lemma queued_jobs_mem:
  "p \<in> set (queued_jobs n s) \<Longrightarrow>
     fst p \<in> set (jobs s) \<and> dispatch_eligible (fst p) \<and>
     get_operation s (job_user_operation (fst p)) = Some (snd p)"
  unfolding queued_jobs_def
  by (auto dest!: in_set_takeD select_related_mem)

lemma spec_dispatch_selection_subset:
  "set (spec_dispatch_selection n s) \<subseteq> {j \<in> set (jobs s). dispatch_eligible j}"
  unfolding spec_dispatch_selection_def by (auto dest!: in_set_takeD)

lemma distinct_map_sort_key:
  "distinct (map f xs) \<Longrightarrow> distinct (map f (sort_key k xs))"
  by (simp add: distinct_map)

lemma spec_dispatch_selection_distinct:
  "distinct (map job_id (jobs s)) \<Longrightarrow> distinct (map job_id (spec_dispatch_selection n s))"
  unfolding spec_dispatch_selection_def
  by (simp add: take_map [symmetric] distinct_map_sort_key distinct_map_filter)

subsection \<open>dispatch\<close>

lemma dispatch_job_jobs:
  "jobs (snd (dispatch_job now p s)) = map (dispatched_job_row now (fst p)) (jobs s)"
  by (simp add: dispatch_job_def Let_def save_job_def dispatched_job_row_def)

lemma dispatch_job_operations:
  "operations (snd (dispatch_job now p s)) =
     map (dispatched_op_row now (op_id (snd p))) (operations s)"
  by (simp add: dispatch_job_def Let_def save_op_def dispatched_op_row_def)

lemma dispatch_job_events:
  "events (snd (dispatch_job now p s)) = events s @
     [\<lparr>ev_id = fresh_uuid (map ev_id (events s)), ev_user_operation = op_id (snd p),
       event_type = ''dispatching'',
       ev_payload = [(''job_id'', JUuid (job_id (fst p))),
                     (''endpoint'', JStr (target_endpoint (fst p)))],
       created_at = now\<rparr>]"
  by (simp add: dispatch_job_def Let_def create_event_def)

lemma dispatch_job_claimed:
  "fst (dispatch_job now p s) =
     ((fst p)\<lparr>job_status := JobDispatching, attempt_count := attempt_count (fst p) + 1,
               last_attempt_at := Some now, last_error := [], job_updated_at := now\<rparr>,
      (snd p)\<lparr>op_status := OpDispatched, op_updated_at := now\<rparr>)"
  by (simp add: dispatch_job_def Let_def)

lemma dispatch_loop_Cons:
  "snd (dispatch_loop now (p # ps) s) = snd (dispatch_loop now ps (snd (dispatch_job now p s)))"
  "fst (dispatch_loop now (p # ps) s) =
     fst (dispatch_job now p s) # fst (dispatch_loop now ps (snd (dispatch_job now p s)))"
  by (simp_all add: split_beta Let_def)

declare dispatch_loop.simps(2) [simp del]

lemma dispatch_loop_jobs:
  "jobs (snd (dispatch_loop now ps s)) =
     map (fold (\<lambda>p. dispatched_job_row now (fst p)) ps) (jobs s)"
  by (induction ps arbitrary: s) (simp_all add: dispatch_loop_Cons dispatch_job_jobs comp_def)

lemma dispatch_loop_operations:
  "operations (snd (dispatch_loop now ps s)) =
     map (fold (\<lambda>p. dispatched_op_row now (op_id (snd p))) ps) (operations s)"
  by (induction ps arbitrary: s) (simp_all add: dispatch_loop_Cons dispatch_job_operations comp_def)

lemma dispatch_loop_claimed:
  "map (\<lambda>c. job_id (fst c)) (fst (dispatch_loop now ps s)) = map (\<lambda>p. job_id (fst p)) ps"
  "map (\<lambda>c. user_op_hash (snd c)) (fst (dispatch_loop now ps s)) = map (\<lambda>p. user_op_hash (snd p)) ps"
  by (induction ps arbitrary: s) (simp_all add: dispatch_loop_Cons dispatch_job_claimed)

lemma dispatch_loop_claimed_Nil: "fst (dispatch_loop now ps s) = [] \<longleftrightarrow> ps = []"
  by (cases ps) (simp_all add: dispatch_loop_Cons)

lemma dispatch_loop_events_prefix:
  "take (length (events s)) (events (snd (dispatch_loop now ps s))) = events s"
proof (induction ps arbitrary: s)
  case Nil
  then show ?case by simp
next
  case (Cons p ps)
  let ?s1 = "snd (dispatch_job now p s)"
  have "take (length (events ?s1)) (events (snd (dispatch_loop now ps ?s1))) = events ?s1"
    by (rule Cons.IH)
  then have "take (length (events s)) (take (length (events ?s1)) (events (snd (dispatch_loop now ps ?s1))))
      = take (length (events s)) (events ?s1)" by simp
  then show ?case by (simp add: dispatch_loop_Cons dispatch_job_events min_def)
qed

lemma drop_prefix_step:
  assumes "take (length ys) zs = ys" and "length ys = Suc (length xs)"
  shows "drop (length xs) zs = drop (length xs) ys @ drop (length ys) zs"
proof -
  have "zs = ys @ drop (length ys) zs" using assms(1) by (metis append_take_drop_id)
  then have "drop (length xs) zs = drop (length xs) (ys @ drop (length ys) zs)" by simp
  also have "\<dots> = drop (length xs) ys @ drop (length ys) zs" using assms(2) by simp
  finally show ?thesis .
qed

lemma dispatch_loop_new_events:
  "new_events s (snd (dispatch_loop now ps s)) =
     map (\<lambda>p. (op_id (snd p), ''dispatching'',
                [(''job_id'', JUuid (job_id (fst p))), (''endpoint'', JStr (target_endpoint (fst p)))],
                now)) ps"
proof (induction ps arbitrary: s)
  case Nil
  then show ?case by (simp add: new_events_def)
next
  case (Cons p ps)
  let ?s1 = "snd (dispatch_job now p s)"
  let ?s2 = "snd (dispatch_loop now ps ?s1)"
  have pre: "take (length (events ?s1)) (events ?s2) = events ?s1"
    by (rule dispatch_loop_events_prefix)
  have len: "length (events ?s1) = Suc (length (events s))"
    by (simp add: dispatch_job_events)
  have "drop (length (events s)) (events ?s2) =
      drop (length (events s)) (events ?s1) @ drop (length (events ?s1)) (events ?s2)"
    using pre len by (rule drop_prefix_step)
  then show ?case
    using Cons.IH [of ?s1]
    by (simp add: new_events_def dispatch_loop_Cons dispatch_job_events ev_core_def)
qed

lemma dispatched_job_row_id [simp]: "job_id (dispatched_job_row now j row) = job_id row"
  by (simp add: dispatched_job_row_def)

lemma dispatched_op_row_id [simp]: "op_id (dispatched_op_row now i row) = op_id row"
  by (simp add: dispatched_op_row_def)

lemma fold_dispatched_op_row:
  "fold (\<lambda>p. dispatched_op_row now (k p)) ps row =
     (if op_id row \<in> k ` set ps then row\<lparr>op_status := OpDispatched, op_updated_at := now\<rparr>
      else row)"
  by (induction ps arbitrary: row) (auto simp: dispatched_op_row_def)

lemma dispatch_batch_store:
  "snd (dispatch_batch now n s) = snd (dispatch_loop now (queued_jobs n s) s)"
  by (simp add: dispatch_batch_def split_beta Let_def)

lemma dispatch_batch_job_ids:
  "map_of (fst (dispatch_batch now n s)) ''job_ids'' =
     Some (JList (map (\<lambda>p. JUuid (job_id (fst p))) (queued_jobs n s)))"
proof (cases "queued_jobs n s = []")
  case True
  then show ?thesis by (simp add: dispatch_batch_def)
next
  case False
  have "map (\<lambda>c. JUuid (job_id (fst c))) (fst (dispatch_loop now (queued_jobs n s) s)) =
      map JUuid (map (\<lambda>c. job_id (fst c)) (fst (dispatch_loop now (queued_jobs n s) s)))"
    by (simp add: comp_def)
  also have "\<dots> = map (\<lambda>p. JUuid (job_id (fst p))) (queued_jobs n s)"
    by (simp add: dispatch_loop_claimed comp_def)
  finally show ?thesis
    using False by (simp add: dispatch_batch_def split_beta Let_def dispatch_loop_claimed_Nil)
qed

lemma get_job_dispatch_loop:
  "get_job (snd (dispatch_loop now ps s)) i =
     map_option (fold (\<lambda>p. dispatched_job_row now (fst p)) ps) (get_job s i)"
  unfolding get_job_def dispatch_loop_jobs
  by (rule find_map_keeps) (rule fold_keeps, simp)

lemma get_operation_dispatch_loop:
  "get_operation (snd (dispatch_loop now ps s)) i =
     map_option (fold (\<lambda>p. dispatched_op_row now (op_id (snd p))) ps) (get_operation s i)"
  unfolding get_operation_def dispatch_loop_operations
  by (rule find_map_keeps) (rule fold_keeps, simp)

lemma get_job_distinct:
  "distinct (map job_id (jobs s)) \<Longrightarrow> j \<in> set (jobs s) \<Longrightarrow> get_job s (job_id j) = Some j"
  unfolding get_job_def by (rule find_distinct_key)

text \<open>
  Claim C7. In a store with distinct job ids whose jobs reference existing operations,
  \<open>dispatch_batch\<close> claims exactly the first \<open>min batch_size n\<close> of the \<open>n\<close> eligible
  jobs (status queued or retrying) in the order of priority, then \<open>enqueued_at\<close>. Each
  claimed job gets \<open>attempt_count\<close> plus one, \<open>last_attempt_at\<close> now, an empty
  \<open>last_error\<close> and the status dispatching; every other job is unchanged; the parent
  operation of each claimed job is dispatched; one \<open>dispatching\<close> event with \<open>job_id\<close>
  and \<open>endpoint\<close> is appended per claimed job; the returned \<open>job_ids\<close> are in claim
  order.
\<close>

theorem dispatch_batch_claims_in_priority_order:
  assumes "distinct (map job_id (jobs s))" and "fk_ok s"
  shows "length (spec_dispatch_selection batch_size s) =
           min batch_size (length (filter dispatch_eligible (jobs s)))
       \<and> sorted (map job_key (spec_dispatch_selection batch_size s))
       \<and> map_of (fst (dispatch_batch now batch_size s)) ''job_ids'' =
           Some (JList (map (\<lambda>j. JUuid (job_id j)) (spec_dispatch_selection batch_size s)))
       \<and> (\<forall>j \<in> set (spec_dispatch_selection batch_size s).
             get_job (snd (dispatch_batch now batch_size s)) (job_id j) =
               Some (j\<lparr>job_status := JobDispatching, attempt_count := attempt_count j + 1,
                        last_attempt_at := Some now, last_error := [], job_updated_at := now\<rparr>))
       \<and> (\<forall>j \<in> set (jobs s). j \<notin> set (spec_dispatch_selection batch_size s) \<longrightarrow>
             get_job (snd (dispatch_batch now batch_size s)) (job_id j) = Some j)
       \<and> (\<forall>j \<in> set (spec_dispatch_selection batch_size s).
             \<exists>u. get_operation (snd (dispatch_batch now batch_size s)) (job_user_operation j) = Some u
               \<and> op_status u = OpDispatched)
       \<and> take (length (events s)) (events (snd (dispatch_batch now batch_size s))) = events s
       \<and> new_events s (snd (dispatch_batch now batch_size s)) =
           map (dispatching_event now) (spec_dispatch_selection batch_size s)"
proof -
  let ?ps = "queued_jobs batch_size s"
  let ?sel = "spec_dispatch_selection batch_size s"
  let ?s' = "snd (dispatch_batch now batch_size s)"
  let ?g = "\<lambda>p. dispatched_job_row now (fst p)"
  have sel: "map fst ?ps = ?sel" using assms(2) by (rule queued_jobs_fst)
  have dist: "distinct (map (\<lambda>p. job_id (fst p)) ?ps)"
    using spec_dispatch_selection_distinct [OF assms(1), of batch_size] sel [symmetric]
    by (simp add: comp_def)
  have opid: "op_id (snd p) = job_user_operation (fst p)" if "p \<in> set ?ps" for p
    using queued_jobs_mem [OF that] get_operation_Some by blast
  have c1: "length ?sel = min batch_size (length (filter dispatch_eligible (jobs s)))"
    by (simp add: spec_dispatch_selection_def)
  have c2: "sorted (map job_key ?sel)"
    unfolding spec_dispatch_selection_def take_map [symmetric]
    by (rule sorted_wrt_take) simp
  have c3: "map_of (fst (dispatch_batch now batch_size s)) ''job_ids'' =
      Some (JList (map (\<lambda>j. JUuid (job_id j)) ?sel))"
    unfolding dispatch_batch_job_ids sel [symmetric] by (simp add: comp_def)
  have c4: "get_job ?s' (job_id j) =
      Some (j\<lparr>job_status := JobDispatching, attempt_count := attempt_count j + 1,
               last_attempt_at := Some now, last_error := [], job_updated_at := now\<rparr>)"
    if "j \<in> set ?sel" for j
  proof -
    from that sel obtain p where p: "p \<in> set ?ps" "fst p = j" by (metis (no_types) in_set_conv_nth length_map nth_map nth_mem)
    have "j \<in> set (jobs s)" using that spec_dispatch_selection_subset by blast
    then have "get_job s (job_id j) = Some j" using assms(1) by (intro get_job_distinct)
    moreover have "fold ?g ?ps j = ?g p j"
      using dist p(1) by (rule fold_row_once [where key = job_id])
        (simp_all add: p(2) dispatched_job_row_def)
    ultimately show ?thesis
      by (simp add: dispatch_batch_store get_job_dispatch_loop p(2) dispatched_job_row_def)
  qed
  have c5: "get_job ?s' (job_id j) = Some j" if "j \<in> set (jobs s)" "j \<notin> set ?sel" for j
  proof -
    have "get_job s (job_id j) = Some j" using assms(1) that(1) by (intro get_job_distinct)
    moreover have "fold ?g ?ps j = j"
    proof (rule fold_row_untouched, rule ballI)
      fix p assume p: "p \<in> set ?ps"
      then have "fst p \<in> set ?sel" using sel by (metis image_eqI set_map)
      moreover have "fst p \<in> set (jobs s)" using queued_jobs_mem [OF p] by simp
      ultimately have "job_id (fst p) \<noteq> job_id j"
        using that assms(1) by (metis distinct_map inj_onD)
      then show "?g p j = j" by (simp add: dispatched_job_row_def)
    qed
    ultimately show ?thesis by (simp add: dispatch_batch_store get_job_dispatch_loop)
  qed
  have c6: "\<exists>u. get_operation ?s' (job_user_operation j) = Some u \<and> op_status u = OpDispatched"
    if "j \<in> set ?sel" for j
  proof -
    from that sel obtain p where p: "p \<in> set ?ps" "fst p = j" by (metis (no_types) in_set_conv_nth length_map nth_map nth_mem)
    have g: "get_operation s (job_user_operation j) = Some (snd p)"
      using queued_jobs_mem [OF p(1)] p(2) by simp
    have "op_id (snd p) \<in> (\<lambda>p. op_id (snd p)) ` set ?ps" using p(1) by (rule imageI)
    then show ?thesis
      by (simp add: dispatch_batch_store get_operation_dispatch_loop g fold_dispatched_op_row)
  qed
  have c7: "take (length (events s)) (events ?s') = events s"
    by (simp add: dispatch_batch_store dispatch_loop_events_prefix)
  have "map (\<lambda>p. (op_id (snd p), ''dispatching'',
                [(''job_id'', JUuid (job_id (fst p))), (''endpoint'', JStr (target_endpoint (fst p)))],
                now)) ?ps = map (\<lambda>p. dispatching_event now (fst p)) ?ps"
    by (rule map_cong) (simp_all add: opid dispatching_event_def)
  also have "\<dots> = map (dispatching_event now) ?sel"
    unfolding sel [symmetric] by (simp add: comp_def)
  finally have c8: "new_events s ?s' = map (dispatching_event now) ?sel"
    by (simp add: dispatch_batch_store dispatch_loop_new_events)
  from c1 c2 c3 c4 c5 c6 c7 c8 show ?thesis by blast
qed

text \<open>
  Claim C8 fails on the code: with no eligible job the result of \<open>dispatch_batch\<close> has the
  keys \<open>count\<close> and \<open>job_ids\<close> only; the key \<open>operation_hashes\<close> is missing.
\<close>

theorem dispatch_batch_empty_result_lacks_operation_hashes:
  "fst (dispatch_batch now batch_size empty_store) = [(''count'', JInt 0), (''job_ids'', JList [])]
   \<and> map_of (fst (dispatch_batch now batch_size empty_store)) ''operation_hashes'' = None"
  by (simp add: dispatch_batch_def queued_jobs_def empty_store_def select_related_simps)

lemma valid_op_status_failed [simp]: "valid_op_status ''failed'' = OpFailed"
  by (simp add: valid_op_status_def op_status_values_def)

lemma failure_message_nonempty [simp]: "failure_message j \<noteq> []"
  by (simp add: failure_message_def)

lemma mark_status_failed:
  "r \<noteq> [] \<Longrightarrow>
   mark_status now ''failed'' (Some r) u s =
     (u\<lparr>op_status := OpFailed, failure_reason := r, completed_at := Some now\<rparr>,
      save_op [F_status, F_failure_reason, F_completed_at, F_updated_at] now
        (u\<lparr>op_status := OpFailed, failure_reason := r, completed_at := Some now\<rparr>) s)"
  by (simp add: mark_status_def Let_def)

lemma reconcile_job_failed:
  assumes "attempt_count (fst p) \<ge> 3"
  shows "reconcile_job now p s =
     (True,
      create_event now (op_id (snd p)) ''failed''
        [(''job_id'', JUuid (job_id (fst p))), (''reason'', JStr (failure_message (fst p)))]
        (save_op [F_status, F_failure_reason, F_completed_at, F_updated_at] now
           ((snd p)\<lparr>op_status := OpFailed, failure_reason := failure_message (fst p),
                     completed_at := Some now\<rparr>)
           (save_job [J_status, J_last_error, J_updated_at] now
              ((fst p)\<lparr>job_status := JobFailed, last_error := failure_message (fst p)\<rparr>) s)))"
proof -
  have fm: "(if last_error (fst p) \<noteq> [] then last_error (fst p) else ''Dispatch attempts exceeded'')
      = failure_message (fst p)"
    by (simp add: failure_message_def)
  show ?thesis
    unfolding reconcile_job_def fm
    using assms by (simp add: Let_def mark_status_failed)
qed

lemma reconcile_job_requeued:
  assumes "\<not> attempt_count (fst p) \<ge> 3"
  shows "reconcile_job now p s =
     (False,
      create_event now (op_id (snd p)) ''requeued'' [(''job_id'', JUuid (job_id (fst p)))]
        (save_op [F_status, F_updated_at] now ((snd p)\<lparr>op_status := OpQueued\<rparr>)
           (save_job [J_status, J_updated_at] now ((fst p)\<lparr>job_status := JobRetrying\<rparr>) s)))"
  unfolding reconcile_job_def using assms by (simp add: Let_def)

lemma reconcile_job_jobs:
  "jobs (snd (reconcile_job now p s)) = map (reconciled_job_row now (fst p)) (jobs s)"
proof (cases "attempt_count (fst p) \<ge> 3")
  case True
  then show ?thesis
    by (simp add: reconcile_job_failed save_job_def reconciled_job_row_def)
next
  case False
  then show ?thesis
    by (simp add: reconcile_job_requeued save_job_def reconciled_job_row_def)
qed

lemma reconcile_job_operations:
  "operations (snd (reconcile_job now p s)) = map (reconciled_op_row now p) (operations s)"
proof (cases "attempt_count (fst p) \<ge> 3")
  case True
  then show ?thesis
    by (simp add: reconcile_job_failed save_op_def reconciled_op_row_def)
next
  case False
  then show ?thesis
    by (simp add: reconcile_job_requeued save_op_def reconciled_op_row_def)
qed

lemma reconcile_job_events:
  "events (snd (reconcile_job now p s)) = events s @
     [\<lparr>ev_id = fresh_uuid (map ev_id (events s)), ev_user_operation = op_id (snd p),
       event_type = fst (snd (reconcile_event now (fst p))),
       ev_payload = fst (snd (snd (reconcile_event now (fst p)))),
       created_at = now\<rparr>]"
proof (cases "attempt_count (fst p) \<ge> 3")
  case True
  then show ?thesis
    by (simp add: reconcile_job_failed create_event_def reconcile_event_def)
next
  case False
  then show ?thesis
    by (simp add: reconcile_job_requeued create_event_def reconcile_event_def)
qed

lemma reconcile_job_flag: "fst (reconcile_job now p s) \<longleftrightarrow> attempt_count (fst p) \<ge> 3"
  by (cases "attempt_count (fst p) \<ge> 3") (simp_all add: reconcile_job_failed reconcile_job_requeued)

lemma reconcile_loop_Cons:
  "snd (reconcile_loop now (p # ps) s) = snd (reconcile_loop now ps (snd (reconcile_job now p s)))"
  "fst (reconcile_loop now (p # ps) s) =
     (if attempt_count (fst p) \<ge> 3
      then (fst (fst (reconcile_loop now ps (snd (reconcile_job now p s)))),
            snd (fst (reconcile_loop now ps (snd (reconcile_job now p s)))) + 1)
      else (fst (fst (reconcile_loop now ps (snd (reconcile_job now p s)))) + 1,
            snd (fst (reconcile_loop now ps (snd (reconcile_job now p s))))))"
  using reconcile_job_flag [of now p s]
  by (simp_all add: split_beta)

declare reconcile_loop.simps(2) [simp del]

lemma reconcile_loop_jobs:
  "jobs (snd (reconcile_loop now ps s)) =
     map (fold (\<lambda>p. reconciled_job_row now (fst p)) ps) (jobs s)"
  by (induction ps arbitrary: s) (simp_all add: reconcile_loop_Cons reconcile_job_jobs comp_def)

lemma reconcile_loop_operations:
  "operations (snd (reconcile_loop now ps s)) =
     map (fold (reconciled_op_row now) ps) (operations s)"
  by (induction ps arbitrary: s) (simp_all add: reconcile_loop_Cons reconcile_job_operations comp_def)

lemma reconcile_loop_counts:
  "fst (reconcile_loop now ps s) =
     (length (filter (\<lambda>p. attempt_count (fst p) < 3) ps),
      length (filter (\<lambda>p. attempt_count (fst p) \<ge> 3) ps))"
  by (induction ps arbitrary: s) (simp_all add: reconcile_loop_Cons)

lemma reconcile_loop_events_prefix:
  "take (length (events s)) (events (snd (reconcile_loop now ps s))) = events s"
proof (induction ps arbitrary: s)
  case Nil
  then show ?case by simp
next
  case (Cons p ps)
  let ?s1 = "snd (reconcile_job now p s)"
  have "take (length (events ?s1)) (events (snd (reconcile_loop now ps ?s1))) = events ?s1"
    by (rule Cons.IH)
  then have "take (length (events s)) (take (length (events ?s1)) (events (snd (reconcile_loop now ps ?s1))))
      = take (length (events s)) (events ?s1)" by simp
  then show ?case by (simp add: reconcile_loop_Cons reconcile_job_events min_def)
qed

lemma reconcile_event_time: "snd (snd (snd (reconcile_event now j))) = now"
  by (simp add: reconcile_event_def)

lemma reconcile_loop_new_events:
  "new_events s (snd (reconcile_loop now ps s)) =
     map (\<lambda>p. (op_id (snd p), snd (reconcile_event now (fst p)))) ps"
proof (induction ps arbitrary: s)
  case Nil
  then show ?case by (simp add: new_events_def)
next
  case (Cons p ps)
  let ?s1 = "snd (reconcile_job now p s)"
  let ?s2 = "snd (reconcile_loop now ps ?s1)"
  have pre: "take (length (events ?s1)) (events ?s2) = events ?s1"
    by (rule reconcile_loop_events_prefix)
  have len: "length (events ?s1) = Suc (length (events s))"
    by (simp add: reconcile_job_events)
  have split: "drop (length (events s)) (events ?s2) =
      drop (length (events s)) (events ?s1) @ drop (length (events ?s1)) (events ?s2)"
    using pre len by (rule drop_prefix_step)
  have hd: "map ev_core (drop (length (events s)) (events ?s1)) =
      [(op_id (snd p), snd (reconcile_event now (fst p)))]"
    using reconcile_event_time [of now "fst p"]
    by (simp add: reconcile_job_events ev_core_def prod_eq_iff)
  have tl: "map ev_core (drop (length (events ?s1)) (events ?s2)) =
      map (\<lambda>p. (op_id (snd p), snd (reconcile_event now (fst p)))) ps"
    using Cons.IH [of ?s1] by (simp add: new_events_def)
  show ?case
    unfolding new_events_def reconcile_loop_Cons split
    by (simp add: hd tl)
qed

lemma reconciled_job_row_id [simp]: "job_id (reconciled_job_row now j row) = job_id row"
  by (simp add: reconciled_job_row_def)

lemma reconciled_op_row_id [simp]: "op_id (reconciled_op_row now p row) = op_id row"
  by (simp add: reconciled_op_row_def)

lemma reconcile_inflight_store:
  "snd (reconcile_inflight now limit s) = snd (reconcile_loop now (inflight now limit s) s)"
  by (simp add: reconcile_inflight_def split_beta Let_def)

lemma reconcile_inflight_result:
  "fst (reconcile_inflight now limit s) =
     [(''processed'', JInt (int (length (inflight now limit s)))),
      (''requeued'', JInt (int (length (filter (\<lambda>p. attempt_count (fst p) < 3) (inflight now limit s))))),
      (''failed'', JInt (int (length (filter (\<lambda>p. attempt_count (fst p) \<ge> 3) (inflight now limit s)))))]"
  by (simp add: reconcile_inflight_def split_beta Let_def reconcile_loop_counts)

lemma get_job_reconcile_loop:
  "get_job (snd (reconcile_loop now ps s)) i =
     map_option (fold (\<lambda>p. reconciled_job_row now (fst p)) ps) (get_job s i)"
  unfolding get_job_def reconcile_loop_jobs
  by (rule find_map_keeps) (rule fold_keeps, simp)

lemma get_operation_reconcile_loop:
  "get_operation (snd (reconcile_loop now ps s)) i =
     map_option (fold (reconciled_op_row now) ps) (get_operation s i)"
  unfolding get_operation_def reconcile_loop_operations
  by (rule find_map_keeps) (rule fold_keeps, simp)

lemma inflight_fst:
  assumes "fk_ok s"
  shows "map fst (inflight now limit s) = spec_stale_selection now limit s"
proof -
  have key: "inflight_key = (\<lambda>p. attempt_key (fst p))"
    by (simp add: fun_eq_iff inflight_key_def attempt_key_def)
  have "map fst (select_related s (filter (stale (now - 300000000)) (jobs s))) =
      filter (stale (now - 300000000)) (jobs s)"
    by (rule select_related_fst [OF assms]) simp
  then show ?thesis
    unfolding inflight_def spec_stale_selection_def key inflight_timeout_def
    by (simp add: take_map [symmetric] map_fst_sort_key)
qed

lemma inflight_mem:
  "p \<in> set (inflight now limit s) \<Longrightarrow>
     fst p \<in> set (jobs s) \<and> stale (now - 300000000) (fst p) \<and>
     get_operation s (job_user_operation (fst p)) = Some (snd p)"
  unfolding inflight_def inflight_timeout_def
  by (auto dest!: in_set_takeD select_related_mem)

lemma spec_stale_selection_subset:
  "set (spec_stale_selection now limit s) \<subseteq> {j \<in> set (jobs s). stale (now - 300000000) j}"
  unfolding spec_stale_selection_def by (auto dest!: in_set_takeD)

lemma spec_stale_selection_distinct:
  "distinct (map job_id (jobs s)) \<Longrightarrow> distinct (map job_id (spec_stale_selection now limit s))"
  unfolding spec_stale_selection_def
  by (simp add: take_map [symmetric] distinct_map_sort_key distinct_map_filter)

lemma nth_map_fst_mem:
  "j \<in> set (map fst ps) \<Longrightarrow> \<exists>p \<in> set ps. fst p = j"
  by auto

lemma length_filter_eq_one:
  "distinct xs \<Longrightarrow> x \<in> set xs \<Longrightarrow> length (filter (\<lambda>y. y = x) xs) = 1"
  by (induction xs) (auto simp: filter_empty_conv)

lemma reconcile_event_inj: "reconcile_event now x = reconcile_event now j \<Longrightarrow> job_id x = job_id j"
  by (auto simp: reconcile_event_def split: if_splits)

lemma stale_iff:
  "stale c j \<longleftrightarrow> job_status j = JobDispatching \<and> (\<exists>t. last_attempt_at j = Some t \<and> t < c)"
  by (auto simp: stale_def split: option.splits)

lemma reconcile_selected_job:
  assumes dist: "distinct (map job_id (jobs s))" and fk: "fk_ok s"
    and mem: "j \<in> set (spec_stale_selection now limit s)"
  shows "get_job (snd (reconcile_inflight now limit s)) (job_id j) =
           Some (reconciled_job_row now j j)"
proof -
  let ?ps = "inflight now limit s"
  let ?g = "\<lambda>p. reconciled_job_row now (fst p)"
  have sel: "map fst ?ps = spec_stale_selection now limit s" using fk by (rule inflight_fst)
  have d: "distinct (map (\<lambda>p. job_id (fst p)) ?ps)"
    using spec_stale_selection_distinct [OF dist, of now limit] sel [symmetric]
    by (simp add: comp_def)
  from mem sel obtain p where p: "p \<in> set ?ps" "fst p = j"
    using nth_map_fst_mem [of j ?ps] by auto
  have "j \<in> set (jobs s)" using mem spec_stale_selection_subset by blast
  then have "get_job s (job_id j) = Some j" using dist by (intro get_job_distinct)
  moreover have "fold ?g ?ps j = ?g p j"
    using d p(1) by (rule fold_row_once [where key = job_id])
      (simp_all add: p(2) reconciled_job_row_def)
  ultimately show ?thesis
    by (simp add: reconcile_inflight_store get_job_reconcile_loop p(2))
qed

lemma reconcile_unselected_job:
  assumes dist: "distinct (map job_id (jobs s))" and fk: "fk_ok s"
    and mem: "j \<in> set (jobs s)" and out: "j \<notin> set (spec_stale_selection now limit s)"
  shows "get_job (snd (reconcile_inflight now limit s)) (job_id j) = Some j"
proof -
  let ?ps = "inflight now limit s"
  let ?g = "\<lambda>p. reconciled_job_row now (fst p)"
  have sel: "map fst ?ps = spec_stale_selection now limit s" using fk by (rule inflight_fst)
  have "get_job s (job_id j) = Some j" using dist mem by (intro get_job_distinct)
  moreover have "fold ?g ?ps j = j"
  proof (rule fold_row_untouched, rule ballI)
    fix p assume p: "p \<in> set ?ps"
    then have "fst p \<in> set (spec_stale_selection now limit s)"
      using sel by (metis image_eqI set_map)
    moreover have "fst p \<in> set (jobs s)" using inflight_mem [OF p] by simp
    ultimately have "job_id (fst p) \<noteq> job_id j"
      using mem out dist by (metis distinct_map inj_onD)
    then show "?g p j = j" by (simp add: reconciled_job_row_def)
  qed
  ultimately show ?thesis by (simp add: reconcile_inflight_store get_job_reconcile_loop)
qed

lemma reconcile_new_events:
  assumes fk: "fk_ok s"
  shows "new_events s (snd (reconcile_inflight now limit s)) =
           map (reconcile_event now) (spec_stale_selection now limit s)"
proof -
  let ?ps = "inflight now limit s"
  have opid: "op_id (snd p) = job_user_operation (fst p)" if "p \<in> set ?ps" for p
    using inflight_mem [OF that] get_operation_Some by blast
  have "map (\<lambda>p. (op_id (snd p), snd (reconcile_event now (fst p)))) ?ps =
      map (\<lambda>p. reconcile_event now (fst p)) ?ps"
    by (rule map_cong) (auto simp: opid reconcile_event_def)
  also have "\<dots> = map (reconcile_event now) (map fst ?ps)" by (simp add: comp_def)
  finally show ?thesis
    by (simp add: reconcile_inflight_store reconcile_loop_new_events inflight_fst [OF fk])
qed

text \<open>The operation row is the one the last selected job that references it wrote.\<close>

lemma reconcile_last_writer:
  assumes fk: "fk_ok s"
    and i: "i < length (spec_stale_selection now limit s)"
    and later: "\<forall>k. i < k \<and> k < length (spec_stale_selection now limit s) \<longrightarrow>
                  job_user_operation (spec_stale_selection now limit s ! k) \<noteq>
                  job_user_operation (spec_stale_selection now limit s ! i)"
  shows "\<exists>u0. get_operation (snd (reconcile_inflight now limit s))
             (job_user_operation (spec_stale_selection now limit s ! i)) =
           Some (reconciled_op_row now (inflight now limit s ! i) u0)
         \<and> op_id u0 = op_id (snd (inflight now limit s ! i))"
proof -
  let ?ps = "inflight now limit s"
  let ?sel = "spec_stale_selection now limit s"
  let ?p = "?ps ! i"
  have sel: "map fst ?ps = ?sel" using fk by (rule inflight_fst)
  then have len: "length ?ps = length ?sel" by (metis length_map)
  have nth: "?sel ! k = fst (?ps ! k)" if "k < length ?ps" for k
    using that sel by (metis nth_map)
  have opid: "op_id (snd p) = job_user_operation (fst p)" if "p \<in> set ?ps" for p
    using inflight_mem [OF that] get_operation_Some by blast
  have pm: "?p \<in> set ?ps" using i len by simp
  have g: "get_operation s (job_user_operation (?sel ! i)) = Some (snd ?p)"
    using inflight_mem [OF pm] nth i len by simp
  have dec: "?ps = take i ?ps @ ?p # drop (Suc i) ?ps"
    using i len by (simp add: id_take_nth_drop)
  have tail: "\<forall>q \<in> set (drop (Suc i) ?ps). op_id (snd q) \<noteq> op_id (snd ?p)"
  proof
    fix q assume "q \<in> set (drop (Suc i) ?ps)"
    then obtain n where n: "n < length (drop (Suc i) ?ps)" "q = drop (Suc i) ?ps ! n"
      by (metis in_set_conv_nth)
    let ?k = "Suc i + n"
    have k: "?k < length ?ps" "i < ?k" using n(1) by simp_all
    have q: "q = ?ps ! ?k" using n by simp
    have "job_user_operation (?sel ! ?k) \<noteq> job_user_operation (?sel ! i)"
      using later k len by simp
    moreover have "q \<in> set ?ps" using q k by simp
    ultimately show "op_id (snd q) \<noteq> op_id (snd ?p)"
      using opid [OF pm] opid [of q] nth [of ?k] nth [of i] k i len q by simp
  qed
  have "fold (reconciled_op_row now) (take i ?ps @ ?p # drop (Suc i) ?ps) (snd ?p) =
      reconciled_op_row now ?p (fold (reconciled_op_row now) (take i ?ps) (snd ?p))"
    by (rule fold_row_last [where key = op_id and k = "\<lambda>q. op_id (snd q)"])
      (use tail in \<open>simp_all add: reconciled_op_row_def\<close>)
  then have f: "fold (reconciled_op_row now) ?ps (snd ?p) =
      reconciled_op_row now ?p (fold (reconciled_op_row now) (take i ?ps) (snd ?p))"
    using dec by simp
  have "op_id (fold (reconciled_op_row now) (take i ?ps) (snd ?p)) = op_id (snd ?p)"
    by (rule fold_keeps) simp
  then show ?thesis
    by (intro exI [of _ "fold (reconciled_op_row now) (take i ?ps) (snd ?p)"])
      (simp add: reconcile_inflight_store get_operation_reconcile_loop g f)
qed

lemma last_sharing_index:
  fixes f :: "nat \<Rightarrow> 'a"
  assumes "i < n" and "f i = x"
  shows "\<exists>m. i \<le> m \<and> m < n \<and> f m = x \<and> (\<forall>k. m < k \<and> k < n \<longrightarrow> f k \<noteq> x)"
proof -
  let ?P = "\<lambda>m. m < n \<and> f m = x"
  have Pi: "?P i" using assms by simp
  have bound: "\<And>y. ?P y \<Longrightarrow> y \<le> n" by simp
  have P: "?P (Greatest ?P)" using Pi bound by (rule GreatestI_nat)
  have le: "i \<le> Greatest ?P" using Pi bound by (rule Greatest_le_nat)
  have "f k \<noteq> x" if "Greatest ?P < k" "k < n" for k
  proof
    assume "f k = x"
    with that(2) have "?P k" by simp
    then have "k \<le> Greatest ?P" using bound by (rule Greatest_le_nat)
    with that(1) show False by simp
  qed
  with P le show ?thesis by blast
qed

lemma run_reachable: "reachable s \<Longrightarrow> reachable (run cs s)"
  by (induction cs arbitrary: s) (simp_all add: reachable_step)

theorem reconcile_inflight_failed_operation_requeued_counterexample:
  "reachable exhausted_then_fresh_store
   \<and> map job_id (spec_stale_selection 1000000000 50 exhausted_then_fresh_store) = [1, 2]
   \<and> map attempt_count (spec_stale_selection 1000000000 50 exhausted_then_fresh_store) = [3, 1]
   \<and> map job_user_operation (spec_stale_selection 1000000000 50 exhausted_then_fresh_store) = [1, 1]
   \<and> map (\<lambda>u. (op_id u, op_status u))
        (operations (snd (reconcile_inflight 1000000000 50 exhausted_then_fresh_store))) =
      [(1, OpQueued)]"
proof -
  have "reachable exhausted_then_fresh_store"
    unfolding exhausted_then_fresh_store_def by (rule run_reachable) (rule reachable_empty)
  moreover have "map job_id (spec_stale_selection 1000000000 50 exhausted_then_fresh_store) = [1, 2]"
    by code_simp
  moreover have "map attempt_count (spec_stale_selection 1000000000 50 exhausted_then_fresh_store) = [3, 1]"
    by code_simp
  moreover have "map job_user_operation (spec_stale_selection 1000000000 50 exhausted_then_fresh_store) = [1, 1]"
    by code_simp
  moreover have "map (\<lambda>u. (op_id u, op_status u))
        (operations (snd (reconcile_inflight 1000000000 50 exhausted_then_fresh_store))) =
      [(1, OpQueued)]"
    by code_simp
  ultimately show ?thesis by blast
qed

text \<open>
  Claim C6, as amended. \<open>reconcile_inflight\<close> examines exactly the jobs with status
  dispatching and \<open>last_attempt_at\<close> older than now minus five minutes, oldest first, at
  most \<open>limit\<close> of them. Each examined job with \<open>attempt_count\<close> below 3 becomes
  retrying and gets one \<open>requeued\<close> event with its \<open>job_id\<close>; its parent operation is
  queued after the call if every job of the same operation examined later in the call also
  has \<open>attempt_count\<close> below 3. The result counts \<open>processed\<close>, \<open>requeued\<close> and
  \<open>failed\<close> with \<open>processed = requeued + failed\<close>; with no stale job they are all zero
  and the store is unchanged.
\<close>

theorem reconcile_inflight_requeues_stale_jobs:
  assumes "distinct (map job_id (jobs s))" and "fk_ok s"
  shows "let sel = spec_stale_selection now limit s;
             s' = snd (reconcile_inflight now limit s)
         in (\<forall>j \<in> set sel. j \<in> set (jobs s) \<and> job_status j = JobDispatching
                \<and> (\<exists>t. last_attempt_at j = Some t \<and> t < now - 300000000))
          \<and> length sel = min limit (length (filter (stale (now - 300000000)) (jobs s)))
          \<and> sorted (map attempt_key sel)
          \<and> fst (reconcile_inflight now limit s) =
              [(''processed'', JInt (int (length sel))),
               (''requeued'', JInt (int (length (filter (\<lambda>j. attempt_count j < 3) sel)))),
               (''failed'', JInt (int (length (filter (\<lambda>j. attempt_count j \<ge> 3) sel))))]
          \<and> length sel = length (filter (\<lambda>j. attempt_count j < 3) sel)
                         + length (filter (\<lambda>j. attempt_count j \<ge> 3) sel)
          \<and> (sel = [] \<longrightarrow> s' = s)
          \<and> (\<forall>j \<in> set sel. attempt_count j < 3 \<longrightarrow>
                get_job s' (job_id j) = Some (j\<lparr>job_status := JobRetrying, job_updated_at := now\<rparr>))
          \<and> (\<forall>j \<in> set (jobs s). j \<notin> set sel \<longrightarrow> get_job s' (job_id j) = Some j)
          \<and> take (length (events s)) (events s') = events s
          \<and> new_events s s' = map (reconcile_event now) sel
          \<and> (\<forall>j \<in> set sel. attempt_count j < 3 \<longrightarrow>
                reconcile_event now j =
                  (job_user_operation j, ''requeued'', [(''job_id'', JUuid (job_id j))], now))
          \<and> (\<forall>i < length sel.
                attempt_count (sel ! i) < 3 \<and>
                (\<forall>k. i < k \<and> k < length sel \<and>
                      job_user_operation (sel ! k) = job_user_operation (sel ! i) \<longrightarrow>
                      attempt_count (sel ! k) < 3) \<longrightarrow>
                (\<exists>u. get_operation s' (job_user_operation (sel ! i)) = Some u
                   \<and> op_status u = OpQueued))"
proof -
  let ?sel = "spec_stale_selection now limit s"
  let ?s' = "snd (reconcile_inflight now limit s)"
  let ?ps = "inflight now limit s"
  have sel: "map fst ?ps = ?sel" using assms(2) by (rule inflight_fst)
  then have len: "length ?ps = length ?sel" by (metis length_map)
  have c1: "\<forall>j \<in> set ?sel. j \<in> set (jobs s) \<and> job_status j = JobDispatching
      \<and> (\<exists>t. last_attempt_at j = Some t \<and> t < now - 300000000)"
    using spec_stale_selection_subset [of now limit s] by (auto simp: stale_iff)
  have c2: "length ?sel = min limit (length (filter (stale (now - 300000000)) (jobs s)))"
    by (simp add: spec_stale_selection_def)
  have c3: "sorted (map attempt_key ?sel)"
    unfolding spec_stale_selection_def take_map [symmetric]
    by (rule sorted_wrt_take) simp
  have cnt: "length (filter (\<lambda>p. P (fst p)) ?ps) = length (filter P ?sel)" for P
    unfolding sel [symmetric] by (simp add: filter_map comp_def)
  have c4: "fst (reconcile_inflight now limit s) =
      [(''processed'', JInt (int (length ?sel))),
       (''requeued'', JInt (int (length (filter (\<lambda>j. attempt_count j < 3) ?sel)))),
       (''failed'', JInt (int (length (filter (\<lambda>j. attempt_count j \<ge> 3) ?sel))))]"
    unfolding reconcile_inflight_result len
    using cnt [of "\<lambda>j. attempt_count j < 3"] cnt [of "\<lambda>j. attempt_count j \<ge> 3"] by simp
  have "length (filter (\<lambda>j. attempt_count j < 3) ?sel)
      + length (filter (\<lambda>j. \<not> attempt_count j < 3) ?sel) = length ?sel"
    by (rule sum_length_filter_compl)
  then have c5: "length ?sel = length (filter (\<lambda>j. attempt_count j < 3) ?sel)
      + length (filter (\<lambda>j. attempt_count j \<ge> 3) ?sel)"
    by (simp add: not_less)
  have c6: "?s' = s" if "?sel = []"
  proof -
    from that len have "?ps = []" by simp
    then show ?thesis by (simp add: reconcile_inflight_def)
  qed
  have c7: "\<forall>j \<in> set ?sel. attempt_count j < 3 \<longrightarrow>
      get_job ?s' (job_id j) = Some (j\<lparr>job_status := JobRetrying, job_updated_at := now\<rparr>)"
    using reconcile_selected_job [OF assms] by (simp add: reconciled_job_row_def)
  have c8: "\<forall>j \<in> set (jobs s). j \<notin> set ?sel \<longrightarrow> get_job ?s' (job_id j) = Some j"
    using reconcile_unselected_job [OF assms] by blast
  have c9: "take (length (events s)) (events ?s') = events s"
    by (simp add: reconcile_inflight_store reconcile_loop_events_prefix)
  have c10: "new_events s ?s' = map (reconcile_event now) ?sel"
    using assms(2) by (rule reconcile_new_events)
  have c11: "\<forall>j \<in> set ?sel. attempt_count j < 3 \<longrightarrow>
      reconcile_event now j =
        (job_user_operation j, ''requeued'', [(''job_id'', JUuid (job_id j))], now)"
    by (simp add: reconcile_event_def)
  have c12: "\<exists>u. get_operation ?s' (job_user_operation (?sel ! i)) = Some u \<and> op_status u = OpQueued"
    if i: "i < length ?sel" and a: "attempt_count (?sel ! i) < 3"
      and later: "\<forall>k. i < k \<and> k < length ?sel \<and>
        job_user_operation (?sel ! k) = job_user_operation (?sel ! i) \<longrightarrow>
        attempt_count (?sel ! k) < 3" for i
  proof -
    from last_sharing_index [of i "length ?sel" "\<lambda>k. job_user_operation (?sel ! k)", OF i refl]
    obtain m where m: "i \<le> m" "m < length ?sel"
      "job_user_operation (?sel ! m) = job_user_operation (?sel ! i)"
      "\<forall>k. m < k \<and> k < length ?sel \<longrightarrow>
         job_user_operation (?sel ! k) \<noteq> job_user_operation (?sel ! i)"
      by blast
    have am: "attempt_count (?sel ! m) < 3"
    proof (cases "m = i")
      case True
      with a show ?thesis by simp
    next
      case False
      with m(1) have "i < m" by simp
      with later m(2,3) show ?thesis by blast
    qed
    have "\<forall>k. m < k \<and> k < length ?sel \<longrightarrow>
        job_user_operation (?sel ! k) \<noteq> job_user_operation (?sel ! m)"
      using m(3,4) by simp
    from reconcile_last_writer [OF assms(2) m(2) this]
    obtain u0 where u0: "get_operation ?s' (job_user_operation (?sel ! m)) =
        Some (reconciled_op_row now (?ps ! m) u0)" "op_id u0 = op_id (snd (?ps ! m))"
      by blast
    have "fst (?ps ! m) = ?sel ! m" using sel m(2) by (metis length_map nth_map)
    then show ?thesis
      using u0 am m(3) by (simp add: reconciled_op_row_def)
  qed
  from c1 c2 c3 c4 c5 c6 c7 c8 c9 c10 c11 c12 show ?thesis unfolding Let_def by blast
qed

theorem reconcile_inflight_requeues_stale_jobs_witness:
  "fst (reconcile_inflight 1000000000 50 exhausted_then_fresh_store) =
     [(''processed'', JInt 2), (''requeued'', JInt 1), (''failed'', JInt 1)]
   \<and> (\<exists>u. get_operation (snd (reconcile_inflight 1000000000 50 exhausted_then_fresh_store)) 1 = Some u
        \<and> op_status u = OpQueued)"
proof -
  let ?s = exhausted_then_fresh_store
  let ?sel = "spec_stale_selection 1000000000 50 ?s"
  have h1: "distinct (map job_id (jobs ?s))" by code_simp
  have h2: "fk_ok ?s" by code_simp
  have len: "length ?sel = 2" by code_simp
  have n1: "length (filter (\<lambda>j. attempt_count j < 3) ?sel) = 1" by code_simp
  have n2: "length (filter (\<lambda>j. attempt_count j \<ge> 3) ?sel) = 1" by code_simp
  have a: "attempt_count (?sel ! 1) < 3" by code_simp
  have op: "job_user_operation (?sel ! 1) = 1" by code_simp
  have later: "\<forall>k. 1 < k \<and> k < length ?sel \<and>
      job_user_operation (?sel ! k) = job_user_operation (?sel ! 1) \<longrightarrow> attempt_count (?sel ! k) < 3"
    using len by simp
  have i: "1 < length ?sel" using len by simp
  from reconcile_inflight_requeues_stale_jobs [OF h1 h2, of 1000000000 50]
  have res: "fst (reconcile_inflight 1000000000 50 ?s) =
      [(''processed'', JInt (int (length ?sel))),
       (''requeued'', JInt (int (length (filter (\<lambda>j. attempt_count j < 3) ?sel)))),
       (''failed'', JInt (int (length (filter (\<lambda>j. attempt_count j \<ge> 3) ?sel))))]"
    and ops: "\<forall>i < length ?sel.
        attempt_count (?sel ! i) < 3 \<and>
        (\<forall>k. i < k \<and> k < length ?sel \<and>
              job_user_operation (?sel ! k) = job_user_operation (?sel ! i) \<longrightarrow>
              attempt_count (?sel ! k) < 3) \<longrightarrow>
        (\<exists>u. get_operation (snd (reconcile_inflight 1000000000 50 ?s))
                (job_user_operation (?sel ! i)) = Some u \<and> op_status u = OpQueued)"
    unfolding Let_def by blast+
  from ops i a later have "\<exists>u. get_operation (snd (reconcile_inflight 1000000000 50 ?s))
      (job_user_operation (?sel ! 1)) = Some u \<and> op_status u = OpQueued"
    by blast
  then have "\<exists>u. get_operation (snd (reconcile_inflight 1000000000 50 ?s)) 1 = Some u
      \<and> op_status u = OpQueued"
    unfolding op .
  then show ?thesis using res by (simp add: len n1 n2)
qed

theorem reconcile_inflight_requeued_operation_failed_counterexample:
  "reachable fresh_then_exhausted_store
   \<and> map job_id (spec_stale_selection 1100000000 50 fresh_then_exhausted_store) = [2, 1]
   \<and> map attempt_count (spec_stale_selection 1100000000 50 fresh_then_exhausted_store) = [1, 3]
   \<and> map job_user_operation (spec_stale_selection 1100000000 50 fresh_then_exhausted_store) = [1, 1]
   \<and> map (\<lambda>j. (job_id j, job_status j))
        (jobs (snd (reconcile_inflight 1100000000 50 fresh_then_exhausted_store))) =
      [(1, JobFailed), (2, JobRetrying)]
   \<and> map (\<lambda>u. (op_id u, op_status u))
        (operations (snd (reconcile_inflight 1100000000 50 fresh_then_exhausted_store))) =
      [(1, OpFailed)]"
proof -
  have "reachable fresh_then_exhausted_store"
    unfolding fresh_then_exhausted_store_def by (rule run_reachable) (rule reachable_empty)
  moreover have "map job_id (spec_stale_selection 1100000000 50 fresh_then_exhausted_store) = [2, 1]"
    by code_simp
  moreover have "map attempt_count (spec_stale_selection 1100000000 50 fresh_then_exhausted_store) = [1, 3]"
    by code_simp
  moreover have "map job_user_operation (spec_stale_selection 1100000000 50 fresh_then_exhausted_store) = [1, 1]"
    by code_simp
  moreover have "map (\<lambda>j. (job_id j, job_status j))
        (jobs (snd (reconcile_inflight 1100000000 50 fresh_then_exhausted_store))) =
      [(1, JobFailed), (2, JobRetrying)]"
    by code_simp
  moreover have "map (\<lambda>u. (op_id u, op_status u))
        (operations (snd (reconcile_inflight 1100000000 50 fresh_then_exhausted_store))) =
      [(1, OpFailed)]"
    by code_simp
  ultimately show ?thesis by blast
qed

theorem dispatch_batch_claims_in_priority_order_witness:
  "map priority (jobs priority_store) = [5, 1, 3]
   \<and> map_of (fst (dispatch_batch 7 10 priority_store)) ''job_ids'' =
       Some (JList [JUuid 2, JUuid 3, JUuid 1])
   \<and> map (\<lambda>j. (job_id j, job_status j, attempt_count j)) (spec_dispatch_selection 2 priority_store)
       = [(2, JobQueued, 0), (3, JobQueued, 0)]
   \<and> get_job (snd (dispatch_batch 7 2 priority_store)) 1 = get_job priority_store 1"
proof -
  let ?s = priority_store
  have h1: "distinct (map job_id (jobs ?s))" by code_simp
  have h2: "fk_ok ?s" by code_simp
  have p: "map priority (jobs ?s) = [5, 1, 3]" by code_simp
  have ids: "map (\<lambda>j. JUuid (job_id j)) (spec_dispatch_selection 10 ?s) = [JUuid 2, JUuid 3, JUuid 1]"
    by code_simp
  have sel2: "map (\<lambda>j. (job_id j, job_status j, attempt_count j)) (spec_dispatch_selection 2 ?s)
       = [(2, JobQueued, 0), (3, JobQueued, 0)]" by code_simp
  obtain j1 where j1: "get_job ?s 1 = Some j1" "j1 \<in> set (jobs ?s)" "job_id j1 = 1"
    "j1 \<notin> set (spec_dispatch_selection 2 ?s)"
  proof -
    have "case get_job ?s 1 of None \<Rightarrow> False | Some j \<Rightarrow>
        j \<in> set (jobs ?s) \<and> job_id j = 1 \<and> j \<notin> set (spec_dispatch_selection 2 ?s)"
      by code_simp
    then show ?thesis using that by (auto split: option.splits)
  qed
  from dispatch_batch_claims_in_priority_order [OF h1 h2, of 10 7]
  have a: "map_of (fst (dispatch_batch 7 10 ?s)) ''job_ids'' =
      Some (JList (map (\<lambda>j. JUuid (job_id j)) (spec_dispatch_selection 10 ?s)))"
    by blast
  from dispatch_batch_claims_in_priority_order [OF h1 h2, of 2 7] j1(2,4)
  have "get_job (snd (dispatch_batch 7 2 ?s)) (job_id j1) = Some j1" by blast
  then show ?thesis using a p ids sel2 j1 by simp
qed

subsection \<open>mark_included\<close>

lemma select_related_Nil_iff:
  assumes "fk_ok s" and "set js \<subseteq> set (jobs s)"
  shows "select_related s js = [] \<longleftrightarrow> js = []"
  using select_related_fst [OF assms] by (metis map_is_Nil_conv)

lemma filter_id_Nil_iff: "filter (\<lambda>row. job_id row = jid) (jobs s) = [] \<longleftrightarrow> get_job s jid = None"
  by (auto simp: get_job_def find_None_iff filter_empty_conv)

lemma mark_included_not_found:
  "get_job s jid = None \<Longrightarrow> mark_included now jid tx s = Inl DoesNotExist"
  using filter_id_Nil_iff [of jid s]
  by (simp add: mark_included_def select_related_simps)

lemma find_Some_filter:
  "find P xs = Some x \<Longrightarrow> \<exists>rest. filter P xs = x # rest"
  by (induction xs) (auto split: if_splits)

lemma mark_included_found:
  assumes j: "get_job s jid = Some j" and u: "get_operation s (job_user_operation j) = Some u"
  shows "mark_included now jid tx s =
     Inr (create_event now (op_id u) ''included''
            [(''job_id'', JUuid (job_id j)), (''tx_hash'', JStr tx)]
            (save_op [F_status, F_metadata, F_completed_at, F_updated_at] now
               (u\<lparr>op_status := OpIncluded,
                   op_metadata := AList.update ''tx_hash'' (JStr tx) (op_metadata u),
                   completed_at := Some now\<rparr>)
               (save_job [J_status, J_last_error, J_updated_at] now
                  (j\<lparr>job_status := JobSucceeded, last_error := []\<rparr>) s)))"
proof -
  from j obtain rest where "filter (\<lambda>row. job_id row = jid) (jobs s) = j # rest"
    unfolding get_job_def by (blast dest: find_Some_filter)
  then show ?thesis
    using u by (simp add: mark_included_def select_related_simps Let_def)
qed

lemma get_job_Some: "get_job s i = Some j \<Longrightarrow> job_id j = i \<and> j \<in> set (jobs s)"
  by (auto simp: get_job_def find_Some_iff)

lemma fk_ok_get_operation:
  "fk_ok s \<Longrightarrow> j \<in> set (jobs s) \<Longrightarrow> \<exists>u. get_operation s (job_user_operation j) = Some u"
  using get_operation_None [of s "job_user_operation j"]
  by (cases "get_operation s (job_user_operation j)") (auto simp: fk_ok_def list_all_iff)

text \<open>
  Claim C4, as amended. In a store whose jobs reference existing operations,
  \<open>mark_included\<close> fails with \<open>DoesNotExist\<close> if and only if no job has the id, and then
  the store is unchanged. Otherwise it sets that job's status to succeeded and clears its
  \<open>last_error\<close>, sets the parent operation's status to included and its
  \<open>completed_at\<close> to now, merges the key \<open>tx_hash\<close> into the operation's metadata (the
  keys are the old ones and \<open>tx_hash\<close>, every key other than \<open>tx_hash\<close> keeps its value,
  \<open>tx_hash\<close> gets the new value), and appends exactly one \<open>included\<close> event with
  \<open>job_id\<close> and \<open>tx_hash\<close>.
\<close>

theorem mark_included_not_found_or_included:
  assumes "fk_ok s"
  shows "(mark_included now jid tx s = Inl DoesNotExist \<longleftrightarrow> get_job s jid = None)
       \<and> (get_job s jid = None \<longrightarrow> gateway_step now (MarkIncluded jid tx) s = s)
       \<and> (\<forall>j. get_job s jid = Some j \<longrightarrow>
            (\<exists>s' u. mark_included now jid tx s = Inr s'
               \<and> get_operation s (job_user_operation j) = Some u
               \<and> jobs s' =
                   map (\<lambda>row. if job_id row = jid
                               then row\<lparr>job_status := JobSucceeded, last_error := [],
                                        job_updated_at := now\<rparr>
                               else row) (jobs s)
               \<and> get_job s' jid =
                   Some (j\<lparr>job_status := JobSucceeded, last_error := [], job_updated_at := now\<rparr>)
               \<and> operations s' =
                   map (\<lambda>row. if op_id row = job_user_operation j
                               then row\<lparr>op_status := OpIncluded,
                                        op_metadata :=
                                          AList.update ''tx_hash'' (JStr tx) (op_metadata u),
                                        completed_at := Some now, op_updated_at := now\<rparr>
                               else row) (operations s)
               \<and> get_operation s' (job_user_operation j) =
                   Some (u\<lparr>op_status := OpIncluded,
                           op_metadata := AList.update ''tx_hash'' (JStr tx) (op_metadata u),
                           completed_at := Some now, op_updated_at := now\<rparr>)
               \<and> map_of (AList.update ''tx_hash'' (JStr tx) (op_metadata u)) ''tx_hash''
                   = Some (JStr tx)
               \<and> (\<forall>k. k \<noteq> ''tx_hash'' \<longrightarrow>
                     map_of (AList.update ''tx_hash'' (JStr tx) (op_metadata u)) k
                       = map_of (op_metadata u) k)
               \<and> fst ` set (AList.update ''tx_hash'' (JStr tx) (op_metadata u))
                   = insert ''tx_hash'' (fst ` set (op_metadata u))
               \<and> events s' = events s @
                   [\<lparr>ev_id = fresh_uuid (map ev_id (events s)),
                     ev_user_operation = job_user_operation j,
                     event_type = ''included'',
                     ev_payload = [(''job_id'', JUuid jid), (''tx_hash'', JStr tx)],
                     created_at = now\<rparr>]))"
proof -
  have found: "\<exists>s' u. mark_included now jid tx s = Inr s'
      \<and> get_operation s (job_user_operation j) = Some u
      \<and> jobs s' =
          map (\<lambda>row. if job_id row = jid
                      then row\<lparr>job_status := JobSucceeded, last_error := [],
                               job_updated_at := now\<rparr>
                      else row) (jobs s)
      \<and> get_job s' jid =
          Some (j\<lparr>job_status := JobSucceeded, last_error := [], job_updated_at := now\<rparr>)
      \<and> operations s' =
          map (\<lambda>row. if op_id row = job_user_operation j
                      then row\<lparr>op_status := OpIncluded,
                               op_metadata := AList.update ''tx_hash'' (JStr tx) (op_metadata u),
                               completed_at := Some now, op_updated_at := now\<rparr>
                      else row) (operations s)
      \<and> get_operation s' (job_user_operation j) =
          Some (u\<lparr>op_status := OpIncluded,
                  op_metadata := AList.update ''tx_hash'' (JStr tx) (op_metadata u),
                  completed_at := Some now, op_updated_at := now\<rparr>)
      \<and> map_of (AList.update ''tx_hash'' (JStr tx) (op_metadata u)) ''tx_hash'' = Some (JStr tx)
      \<and> (\<forall>k. k \<noteq> ''tx_hash'' \<longrightarrow>
            map_of (AList.update ''tx_hash'' (JStr tx) (op_metadata u)) k = map_of (op_metadata u) k)
      \<and> fst ` set (AList.update ''tx_hash'' (JStr tx) (op_metadata u))
          = insert ''tx_hash'' (fst ` set (op_metadata u))
      \<and> events s' = events s @
          [\<lparr>ev_id = fresh_uuid (map ev_id (events s)),
            ev_user_operation = job_user_operation j,
            event_type = ''included'',
            ev_payload = [(''job_id'', JUuid jid), (''tx_hash'', JStr tx)],
            created_at = now\<rparr>]"
    if j: "get_job s jid = Some j" for j
  proof -
    from get_job_Some [OF j] have jid: "job_id j = jid" and jm: "j \<in> set (jobs s)" by simp_all
    from fk_ok_get_operation [OF assms jm]
    obtain u where u: "get_operation s (job_user_operation j) = Some u" by blast
    from get_operation_Some [OF u] have uid: "op_id u = job_user_operation j" by simp
    let ?J = "\<lambda>row. if job_id row = jid
                      then row\<lparr>job_status := JobSucceeded, last_error := [],
                               job_updated_at := now\<rparr>
                      else row"
    let ?U = "\<lambda>row. if op_id row = job_user_operation j
                      then row\<lparr>op_status := OpIncluded,
                               op_metadata := AList.update ''tx_hash'' (JStr tx) (op_metadata u),
                               completed_at := Some now, op_updated_at := now\<rparr>
                      else row"
    let ?s' = "create_event now (op_id u) ''included''
            [(''job_id'', JUuid (job_id j)), (''tx_hash'', JStr tx)]
            (save_op [F_status, F_metadata, F_completed_at, F_updated_at] now
               (u\<lparr>op_status := OpIncluded,
                   op_metadata := AList.update ''tx_hash'' (JStr tx) (op_metadata u),
                   completed_at := Some now\<rparr>)
               (save_job [J_status, J_last_error, J_updated_at] now
                  (j\<lparr>job_status := JobSucceeded, last_error := []\<rparr>) s))"
    have r: "mark_included now jid tx s = Inr ?s'" using j u by (rule mark_included_found)
    have js: "jobs ?s' = map ?J (jobs s)" by (simp add: save_job_def jid)
    have os: "operations ?s' = map ?U (operations s)" by (simp add: save_op_def uid)
    have es: "events ?s' = events s @
          [\<lparr>ev_id = fresh_uuid (map ev_id (events s)),
            ev_user_operation = job_user_operation j,
            event_type = ''included'',
            ev_payload = [(''job_id'', JUuid jid), (''tx_hash'', JStr tx)],
            created_at = now\<rparr>]"
      by (simp add: create_event_def uid jid)
    have "get_job ?s' jid = map_option ?J (get_job s jid)"
      unfolding get_job_def js by (rule find_map_keeps) simp
    then have gj: "get_job ?s' jid =
        Some (j\<lparr>job_status := JobSucceeded, last_error := [], job_updated_at := now\<rparr>)"
      using j jid by simp
    have "get_operation ?s' (job_user_operation j) =
        map_option ?U (get_operation s (job_user_operation j))"
      unfolding get_operation_def os by (rule find_map_keeps) simp
    then have go: "get_operation ?s' (job_user_operation j) =
        Some (u\<lparr>op_status := OpIncluded,
                op_metadata := AList.update ''tx_hash'' (JStr tx) (op_metadata u),
                completed_at := Some now, op_updated_at := now\<rparr>)"
      using u uid by simp
    have m1: "map_of (AList.update ''tx_hash'' (JStr tx) (op_metadata u)) ''tx_hash'' = Some (JStr tx)"
      by (simp add: update_conv')
    have m2: "\<forall>k. k \<noteq> ''tx_hash'' \<longrightarrow>
        map_of (AList.update ''tx_hash'' (JStr tx) (op_metadata u)) k = map_of (op_metadata u) k"
      by (simp add: update_conv')
    have m3: "fst ` set (AList.update ''tx_hash'' (JStr tx) (op_metadata u))
        = insert ''tx_hash'' (fst ` set (op_metadata u))"
      by (simp add: dom_update)
    show ?thesis
      by (intro exI [of _ ?s'] exI [of _ u] conjI r u js gj os go m1 m2 m3 es)
  qed
  have nf: "mark_included now jid tx s = Inl DoesNotExist \<longleftrightarrow> get_job s jid = None"
  proof
    assume e: "mark_included now jid tx s = Inl DoesNotExist"
    show "get_job s jid = None"
    proof (cases "get_job s jid")
      case (Some j)
      from found [OF Some] obtain s' where "mark_included now jid tx s = Inr s'" by (elim exE conjE)
      with e show ?thesis by simp
    qed simp
  qed (rule mark_included_not_found)
  have un: "get_job s jid = None \<longrightarrow> gateway_step now (MarkIncluded jid tx) s = s"
    by (simp add: mark_included_not_found)
  show ?thesis
    by (intro conjI allI impI nf un [rule_format] found)
qed

theorem mark_included_not_found_or_included_witness:
  "mark_included 5 9 ''0x11'' queued_store = Inl DoesNotExist
   \<and> (\<exists>s'. mark_included 5 1 ''0x11'' queued_store = Inr s'
        \<and> map (\<lambda>j. (job_id j, job_status j, last_error j)) (jobs s') = [(1, JobSucceeded, [])]
        \<and> map (\<lambda>u. (op_status u, op_metadata u, completed_at u)) (operations s') =
            [(OpIncluded, [(''source'', JStr ''test''), (''tx_hash'', JStr ''0x11'')], Some 5)]
        \<and> map ev_core (events s') =
            [(1, ''queued'', [(''endpoint'', JStr ''https://bundler.mock/rpc'')], 0),
             (1, ''included'', [(''job_id'', JUuid 1), (''tx_hash'', JStr ''0x11'')], 5)])"
proof -
  have h: "fk_ok queued_store" by code_simp
  have n: "get_job queued_store 9 = None" by code_simp
  obtain j where j: "get_job queued_store 1 = Some j"
  proof -
    have "get_job queued_store 1 \<noteq> None" by code_simp
    then show ?thesis using that by auto
  qed
  note thm9 = mark_included_not_found_or_included [OF h, of 5 9 "''0x11''"]
  note thm1 = mark_included_not_found_or_included [OF h, of 5 1 "''0x11''"]
  have a: "mark_included 5 9 ''0x11'' queued_store = Inl DoesNotExist"
    using thm9 [THEN conjunct1] n by (rule iffD2)
  from thm1 [THEN conjunct2, THEN conjunct2, rule_format, OF j]
  obtain s' where s': "mark_included 5 1 ''0x11'' queued_store = Inr s'"
    by (elim exE conjE)
  have "case mark_included 5 1 ''0x11'' queued_store of Inl e \<Rightarrow> False | Inr s' \<Rightarrow>
      map (\<lambda>j. (job_id j, job_status j, last_error j)) (jobs s') = [(1, JobSucceeded, [])]
      \<and> map (\<lambda>u. (op_status u, op_metadata u, completed_at u)) (operations s') =
            [(OpIncluded, [(''source'', JStr ''test''), (''tx_hash'', JStr ''0x11'')], Some 5)]
      \<and> map ev_core (events s') =
            [(1, ''queued'', [(''endpoint'', JStr ''https://bundler.mock/rpc'')], 0),
             (1, ''included'', [(''job_id'', JUuid 1), (''tx_hash'', JStr ''0x11'')], 5)]"
    by code_simp
  with s' a show ?thesis by simp
qed

subsection \<open>queue_operation\<close>

lemma queue_operation_existing:
  assumes "get_operation_by_hash s (arg_user_op_hash a) = Some u"
  shows "queue_operation now a s =
     (if op_status u \<noteq> OpQueued
      then (\<lparr>qo_user_operation =
               u\<lparr>op_status := OpQueued, failure_reason := [], completed_at := None,
                  op_updated_at := now\<rparr>,
             qo_bundler_job = new_job now (op_id u) (arg_endpoint a) s\<rparr>,
            \<lparr>operations =
               map (\<lambda>row. if op_id row = op_id u
                           then row\<lparr>op_status := OpQueued, failure_reason := [],
                                    completed_at := None, op_updated_at := now\<rparr>
                           else row) (operations s),
             jobs = jobs s @ [new_job now (op_id u) (arg_endpoint a) s],
             events = events s @
               [\<lparr>ev_id = fresh_uuid (map ev_id (events s)), ev_user_operation = op_id u,
                 event_type = ''queued'', ev_payload = [(''endpoint'', JStr (arg_endpoint a))],
                 created_at = now\<rparr>]\<rparr>)
      else (\<lparr>qo_user_operation = u,
             qo_bundler_job = new_job now (op_id u) (arg_endpoint a) s\<rparr>,
            \<lparr>operations = operations s,
             jobs = jobs s @ [new_job now (op_id u) (arg_endpoint a) s],
             events = events s @
               [\<lparr>ev_id = fresh_uuid (map ev_id (events s)), ev_user_operation = op_id u,
                 event_type = ''queued'', ev_payload = [(''endpoint'', JStr (arg_endpoint a))],
                 created_at = now\<rparr>]\<rparr>))"
  using assms
  by (simp add: queue_operation_def get_or_create_def Let_def save_op_def create_event_def
      new_job_def)

lemma queue_operation_new:
  assumes "get_operation_by_hash s (arg_user_op_hash a) = None"
  shows "queue_operation now a s =
     (\<lparr>qo_user_operation = new_operation now a s,
       qo_bundler_job = new_job now (op_id (new_operation now a s)) (arg_endpoint a) s\<rparr>,
      \<lparr>operations = operations s @ [new_operation now a s],
       jobs = jobs s @ [new_job now (op_id (new_operation now a s)) (arg_endpoint a) s],
       events = events s @
         [\<lparr>ev_id = fresh_uuid (map ev_id (events s)),
           ev_user_operation = op_id (new_operation now a s),
           event_type = ''queued'', ev_payload = [(''endpoint'', JStr (arg_endpoint a))],
           created_at = now\<rparr>]\<rparr>)"
proof -
  have st: "op_status (new_operation now a s) = OpQueued"
    by (simp add: new_operation_def Let_def)
  show ?thesis
    using assms st
    by (simp add: queue_operation_def get_or_create_def Let_def create_event_def new_job_def)
qed

lemma get_operation_by_hash_Some:
  "get_operation_by_hash s h = Some u \<Longrightarrow> user_op_hash u = h \<and> u \<in> set (operations s)"
  by (auto simp: get_operation_by_hash_def find_Some_iff)

lemma get_operation_by_hash_None:
  "get_operation_by_hash s h = None \<longleftrightarrow> h \<notin> set (map user_op_hash (operations s))"
  by (auto simp: get_operation_by_hash_def find_None_iff)

subsection \<open>Keys, hashes and references are never rewritten\<close>

lemma dispatched_row_keeps [simp]:
  "user_op_hash (dispatched_op_row now i row) = user_op_hash row"
  "job_user_operation (dispatched_job_row now j jrow) = job_user_operation jrow"
  by (simp_all add: dispatched_op_row_def dispatched_job_row_def)

lemma reconciled_row_keeps [simp]:
  "user_op_hash (reconciled_op_row now p row) = user_op_hash row"
  "job_user_operation (reconciled_job_row now j jrow) = job_user_operation jrow"
  by (simp_all add: reconciled_op_row_def reconciled_job_row_def)

lemma map_map_keeps: "(\<And>x. f (G x) = f x) \<Longrightarrow> map f (map G xs) = map f xs"
  by simp

lemma dispatch_batch_shape:
  "map op_id (operations (snd (dispatch_batch now n s))) = map op_id (operations s)"
  "map user_op_hash (operations (snd (dispatch_batch now n s))) = map user_op_hash (operations s)"
  "map job_id (jobs (snd (dispatch_batch now n s))) = map job_id (jobs s)"
  "map job_user_operation (jobs (snd (dispatch_batch now n s))) = map job_user_operation (jobs s)"
  unfolding dispatch_batch_store dispatch_loop_operations dispatch_loop_jobs
  by (rule map_map_keeps, rule fold_keeps, simp)+

lemma reconcile_inflight_shape:
  "map op_id (operations (snd (reconcile_inflight now n s))) = map op_id (operations s)"
  "map user_op_hash (operations (snd (reconcile_inflight now n s))) = map user_op_hash (operations s)"
  "map job_id (jobs (snd (reconcile_inflight now n s))) = map job_id (jobs s)"
  "map job_user_operation (jobs (snd (reconcile_inflight now n s))) = map job_user_operation (jobs s)"
  unfolding reconcile_inflight_store reconcile_loop_operations reconcile_loop_jobs
  by (rule map_map_keeps, rule fold_keeps, simp)+

lemma mark_included_cases:
  obtains (not_found) "mark_included now jid tx s = Inl DoesNotExist"
  | (found) j u where "job_id j = jid" "j \<in> set (jobs s)"
      "get_operation s (job_user_operation j) = Some u"
      "mark_included now jid tx s =
         Inr (create_event now (op_id u) ''included''
            [(''job_id'', JUuid (job_id j)), (''tx_hash'', JStr tx)]
            (save_op [F_status, F_metadata, F_completed_at, F_updated_at] now
               (u\<lparr>op_status := OpIncluded,
                   op_metadata := AList.update ''tx_hash'' (JStr tx) (op_metadata u),
                   completed_at := Some now\<rparr>)
               (save_job [J_status, J_last_error, J_updated_at] now
                  (j\<lparr>job_status := JobSucceeded, last_error := []\<rparr>) s)))"
proof (cases "select_related s (filter (\<lambda>row. job_id row = jid) (jobs s))")
  case Nil
  then have "mark_included now jid tx s = Inl DoesNotExist" by (simp add: mark_included_def)
  then show ?thesis by (rule not_found)
next
  case (Cons p ps)
  then have pm: "p \<in> set (select_related s (filter (\<lambda>row. job_id row = jid) (jobs s)))" by simp
  from select_related_mem [OF pm]
  have m: "job_id (fst p) = jid" "fst p \<in> set (jobs s)"
    and u: "get_operation s (job_user_operation (fst p)) = Some (snd p)" by simp_all
  show ?thesis
    using m u
  proof (rule found)
    show "mark_included now jid tx s =
         Inr (create_event now (op_id (snd p)) ''included''
            [(''job_id'', JUuid (job_id (fst p))), (''tx_hash'', JStr tx)]
            (save_op [F_status, F_metadata, F_completed_at, F_updated_at] now
               ((snd p)\<lparr>op_status := OpIncluded,
                   op_metadata := AList.update ''tx_hash'' (JStr tx) (op_metadata (snd p)),
                   completed_at := Some now\<rparr>)
               (save_job [J_status, J_last_error, J_updated_at] now
                  ((fst p)\<lparr>job_status := JobSucceeded, last_error := []\<rparr>) s)))"
      using Cons by (cases p) (simp add: mark_included_def Let_def)
  qed
qed

lemma included_row_keeps [simp]:
  "op_id (included_op_row now tx u row) = op_id row"
  "user_op_hash (included_op_row now tx u row) = user_op_hash row"
  "job_id (included_job_row now jid jrow) = job_id jrow"
  "job_user_operation (included_job_row now jid jrow) = job_user_operation jrow"
  by (simp_all add: included_op_row_def included_job_row_def)

lemma mark_included_step:
  obtains (not_found) "gateway_step now (MarkIncluded jid tx) s = s"
  | (found) j u where "job_id j = jid" "j \<in> set (jobs s)"
      "get_operation s (job_user_operation j) = Some u"
      "jobs (gateway_step now (MarkIncluded jid tx) s) = map (included_job_row now jid) (jobs s)"
      "operations (gateway_step now (MarkIncluded jid tx) s) =
         map (included_op_row now tx u) (operations s)"
proof (cases rule: mark_included_cases [of now jid tx s])
  case not_found
  then have "gateway_step now (MarkIncluded jid tx) s = s" by simp
  then show ?thesis by (rule that(1))
next
  case (found j u)
  have "jobs (gateway_step now (MarkIncluded jid tx) s) = map (included_job_row now jid) (jobs s)"
    by (simp add: found(4) save_job_def included_job_row_def found(1))
  moreover have "operations (gateway_step now (MarkIncluded jid tx) s) =
      map (included_op_row now tx u) (operations s)"
    by (simp add: found(4) save_op_def included_op_row_def)
  ultimately show ?thesis using found(1-3) that(2) by blast
qed

lemma mark_included_shape:
  "map op_id (operations (gateway_step now (MarkIncluded jid tx) s)) = map op_id (operations s)"
  "map user_op_hash (operations (gateway_step now (MarkIncluded jid tx) s)) =
     map user_op_hash (operations s)"
  "map job_id (jobs (gateway_step now (MarkIncluded jid tx) s)) = map job_id (jobs s)"
  "map job_user_operation (jobs (gateway_step now (MarkIncluded jid tx) s)) =
     map job_user_operation (jobs s)"
  by (cases rule: mark_included_step [of now jid tx s]; simp)+

subsection \<open>The integrity constraints hold in every reachable store\<close>

lemma new_job_fields [simp]:
  "job_id (new_job now i e s) = fresh_uuid (map job_id (jobs s))"
  "job_user_operation (new_job now i e s) = i"
  "job_status (new_job now i e s) = JobQueued"
  "attempt_count (new_job now i e s) = 0"
  "target_endpoint (new_job now i e s) = e"
  by (simp_all add: new_job_def)

lemma new_operation_fields [simp]:
  "op_id (new_operation now a s) = fresh_uuid (map op_id (operations s))"
  "user_op_hash (new_operation now a s) = arg_user_op_hash a"
  "op_status (new_operation now a s) = OpQueued"
  "completed_at (new_operation now a s) = None"
  by (simp_all add: new_operation_def Let_def)

lemma queue_operation_shape_existing:
  assumes "get_operation_by_hash s (arg_user_op_hash a) = Some u"
  shows "map op_id (operations (snd (queue_operation now a s))) = map op_id (operations s)"
    and "map user_op_hash (operations (snd (queue_operation now a s))) =
           map user_op_hash (operations s)"
    and "jobs (snd (queue_operation now a s)) = jobs s @ [new_job now (op_id u) (arg_endpoint a) s]"
  by (simp_all add: queue_operation_existing [OF assms] comp_def cong: map_cong)

lemma queue_operation_shape_new:
  assumes "get_operation_by_hash s (arg_user_op_hash a) = None"
  shows "operations (snd (queue_operation now a s)) = operations s @ [new_operation now a s]"
    and "jobs (snd (queue_operation now a s)) =
           jobs s @ [new_job now (op_id (new_operation now a s)) (arg_endpoint a) s]"
  by (simp_all add: queue_operation_new [OF assms])

lemma fk_ok_iff:
  "fk_ok s \<longleftrightarrow> set (map job_user_operation (jobs s)) \<subseteq> set (map op_id (operations s))"
  by (auto simp: fk_ok_def list_all_iff)

lemma wf_store_shape:
  assumes "wf_store s"
    and "map op_id (operations s') = map op_id (operations s)"
    and "map user_op_hash (operations s') = map user_op_hash (operations s)"
    and "map job_id (jobs s') = map job_id (jobs s)"
    and "map job_user_operation (jobs s') = map job_user_operation (jobs s)"
  shows "wf_store s'"
  using assms unfolding wf_store_def fk_ok_iff by simp

lemma wf_store_queue_operation:
  assumes "wf_store s"
  shows "wf_store (snd (queue_operation now a s))"
proof (cases "get_operation_by_hash s (arg_user_op_hash a)")
  case None
  note sh = queue_operation_shape_new [OF None, of now]
  have "arg_user_op_hash a \<notin> set (map user_op_hash (operations s))"
    using None by (simp add: get_operation_by_hash_None)
  then show ?thesis
    using assms fresh_uuid_notin [of "map op_id (operations s)"]
      fresh_uuid_notin [of "map job_id (jobs s)"]
    unfolding wf_store_def fk_ok_iff sh by auto
next
  case (Some u)
  note sh = queue_operation_shape_existing [OF Some, of now]
  have "op_id u \<in> set (map op_id (operations s))"
    using get_operation_by_hash_Some [OF Some] by simp
  then show ?thesis
    using assms fresh_uuid_notin [of "map job_id (jobs s)"]
    unfolding wf_store_def fk_ok_iff sh by auto
qed

lemma wf_store_step: "wf_store s \<Longrightarrow> wf_store (gateway_step now c s)"
proof (cases c)
  case (QueueOperation a)
  assume "wf_store s"
  then show ?thesis unfolding QueueOperation by (simp add: wf_store_queue_operation)
next
  case (DispatchBatch n)
  assume "wf_store s"
  then show ?thesis unfolding DispatchBatch
    by (rule wf_store_shape) (simp_all add: dispatch_batch_shape)
next
  case (ReconcileInflight n)
  assume "wf_store s"
  then show ?thesis unfolding ReconcileInflight
    by (rule wf_store_shape) (simp_all add: reconcile_inflight_shape)
next
  case (MarkIncluded jid tx)
  assume "wf_store s"
  then show ?thesis unfolding MarkIncluded
    by (rule wf_store_shape) (rule mark_included_shape)+
qed

lemma wf_store_empty: "wf_store empty_store"
  by (simp add: wf_store_def empty_store_def fk_ok_def)

lemma reachable_wf_store: "reachable s \<Longrightarrow> wf_store s"
  by (induction rule: reachable.induct) (simp_all add: wf_store_empty wf_store_step)

lemma wf_store_run: "wf_store s \<Longrightarrow> wf_store (run cs s)"
  by (induction cs arbitrary: s) (simp_all add: wf_store_step)

lemma hashes_step:
  "set (map user_op_hash (operations s)) \<subseteq>
     set (map user_op_hash (operations (gateway_step now c s)))"
proof (cases c)
  case (QueueOperation a)
  show ?thesis
  proof (cases "get_operation_by_hash s (arg_user_op_hash a)")
    case None
    show ?thesis unfolding QueueOperation
      by (simp add: queue_operation_shape_new [OF None]) blast
  next
    case (Some u)
    show ?thesis unfolding QueueOperation
      using queue_operation_shape_existing(2) [OF Some, of now] by simp
  qed
next
  case (DispatchBatch n)
  show ?thesis unfolding DispatchBatch using dispatch_batch_shape(2) [of now n s] by simp
next
  case (ReconcileInflight n)
  show ?thesis unfolding ReconcileInflight using reconcile_inflight_shape(2) [of now n s] by simp
next
  case (MarkIncluded jid tx)
  show ?thesis unfolding MarkIncluded using mark_included_shape(2) [of now jid tx s] by simp
qed

lemma hashes_run:
  "h \<in> set (map user_op_hash (operations s)) \<Longrightarrow>
     h \<in> set (map user_op_hash (operations (run cs s)))"
proof (induction cs arbitrary: s)
  case Nil
  then show ?case by simp
next
  case (Cons tc cs)
  from Cons.prems hashes_step [of s "fst tc" "snd tc"]
  have "h \<in> set (map user_op_hash (operations (gateway_step (fst tc) (snd tc) s)))" by blast
  then show ?case using Cons.IH [of "gateway_step (fst tc) (snd tc) s"] by simp
qed

lemma queue_operation_hash_present:
  "arg_user_op_hash a \<in> set (map user_op_hash (operations (snd (queue_operation now a s))))"
proof (cases "get_operation_by_hash s (arg_user_op_hash a)")
  case None
  then show ?thesis by (simp add: queue_operation_shape_new)
next
  case (Some u)
  from get_operation_by_hash_Some [OF Some]
  have "arg_user_op_hash a \<in> set (map user_op_hash (operations s))" by force
  then show ?thesis by (simp add: queue_operation_shape_existing(2) [OF Some])
qed

lemma count_distinct_key:
  "distinct (map f xs) \<Longrightarrow> k \<in> set (map f xs) \<Longrightarrow> length (filter (\<lambda>y. f y = k) xs) = 1"
  by (induction xs) (auto simp: filter_empty_conv image_iff)

text \<open>
  Claim C10. When the hash already belongs to an operation, \<open>queue_operation\<close> ignores the
  supplied chain id, sender, nonce, payload and metadata (two requests with the same hash and
  endpoint give the same result and store); every operation row is as before but for status,
  \<open>failure_reason\<close>, \<open>completed_at\<close> and \<open>updated_at\<close>; if the existing operation is
  already queued the table of operations is not written at all; one new job and one
  \<open>queued\<close> event are appended all the same.
\<close>

theorem queue_operation_existing_hash_ignores_new_fields:
  assumes "get_operation_by_hash s (arg_user_op_hash a) = Some u"
  shows "map reset_fields_erased (operations (snd (queue_operation now a s))) =
           map reset_fields_erased (operations s)
       \<and> (op_status u = OpQueued \<longrightarrow> operations (snd (queue_operation now a s)) = operations s)
       \<and> (\<forall>a'. arg_user_op_hash a' = arg_user_op_hash a \<and> arg_endpoint a' = arg_endpoint a \<longrightarrow>
              queue_operation now a' s = queue_operation now a s)
       \<and> jobs (snd (queue_operation now a s)) =
           jobs s @ [\<lparr>job_id = fresh_uuid (map job_id (jobs s)),
                      job_user_operation = op_id u,
                      target_endpoint = arg_endpoint a,
                      job_status = JobQueued,
                      attempt_count = 0,
                      priority = 100,
                      last_error = [],
                      enqueued_at = now,
                      last_attempt_at = None,
                      job_metadata = [(''attempt_context'', JStr ''initial'')],
                      job_updated_at = now\<rparr>]
       \<and> events (snd (queue_operation now a s)) =
           events s @ [\<lparr>ev_id = fresh_uuid (map ev_id (events s)),
                        ev_user_operation = op_id u,
                        event_type = ''queued'',
                        ev_payload = [(''endpoint'', JStr (arg_endpoint a))],
                        created_at = now\<rparr>]"
proof -
  have c1: "map reset_fields_erased (operations (snd (queue_operation now a s))) =
      map reset_fields_erased (operations s)"
    by (simp add: queue_operation_existing [OF assms] reset_fields_erased_def comp_def
        cong: map_cong)
  have c2: "op_status u = OpQueued \<longrightarrow> operations (snd (queue_operation now a s)) = operations s"
    by (simp add: queue_operation_existing [OF assms])
  have c3: "queue_operation now a' s = queue_operation now a s"
    if "arg_user_op_hash a' = arg_user_op_hash a \<and> arg_endpoint a' = arg_endpoint a" for a'
  proof -
    from that assms have "get_operation_by_hash s (arg_user_op_hash a') = Some u" by simp
    then show ?thesis
      using that by (simp add: queue_operation_existing [OF assms] queue_operation_existing)
  qed
  have c4: "jobs (snd (queue_operation now a s)) =
      jobs s @ [\<lparr>job_id = fresh_uuid (map job_id (jobs s)),
                 job_user_operation = op_id u,
                 target_endpoint = arg_endpoint a,
                 job_status = JobQueued,
                 attempt_count = 0,
                 priority = 100,
                 last_error = [],
                 enqueued_at = now,
                 last_attempt_at = None,
                 job_metadata = [(''attempt_context'', JStr ''initial'')],
                 job_updated_at = now\<rparr>]"
    by (simp add: queue_operation_existing [OF assms] new_job_def)
  have c5: "events (snd (queue_operation now a s)) =
      events s @ [\<lparr>ev_id = fresh_uuid (map ev_id (events s)),
                   ev_user_operation = op_id u,
                   event_type = ''queued'',
                   ev_payload = [(''endpoint'', JStr (arg_endpoint a))],
                   created_at = now\<rparr>]"
    by (simp add: queue_operation_existing [OF assms])
  have c3': "\<forall>a'. arg_user_op_hash a' = arg_user_op_hash a \<and> arg_endpoint a' = arg_endpoint a \<longrightarrow>
      queue_operation now a' s = queue_operation now a s"
    by (intro allI impI) (rule c3)
  show ?thesis
    by (intro conjI c1 c2 c3' c4 c5)
qed

theorem queue_operation_existing_hash_ignores_new_fields_witness:
  "map op_status (operations failed_store) = [OpFailed]
   \<and> map reset_fields_erased
         (operations (snd (queue_operation 907000000 other_args failed_store))) =
       map reset_fields_erased (operations failed_store)
   \<and> queue_operation 907000000 (other_args\<lparr>arg_chain_id := 7, arg_metadata := None\<rparr>) failed_store =
       queue_operation 907000000 other_args failed_store"
proof -
  obtain u where u: "get_operation_by_hash failed_store (arg_user_op_hash other_args) = Some u"
  proof -
    have "get_operation_by_hash failed_store (arg_user_op_hash other_args) \<noteq> None" by code_simp
    then show ?thesis using that by auto
  qed
  note inst = queue_operation_existing_hash_ignores_new_fields [OF u, of 907000000]
  have a: "map op_status (operations failed_store) = [OpFailed]" by code_simp
  have b: "map reset_fields_erased
         (operations (snd (queue_operation 907000000 other_args failed_store))) =
       map reset_fields_erased (operations failed_store)"
    using inst by (rule conjunct1)
  have "arg_user_op_hash (other_args\<lparr>arg_chain_id := 7, arg_metadata := None\<rparr>) =
      arg_user_op_hash other_args
    \<and> arg_endpoint (other_args\<lparr>arg_chain_id := 7, arg_metadata := None\<rparr>) = arg_endpoint other_args"
    by simp
  with inst [THEN conjunct2, THEN conjunct2, THEN conjunct1, rule_format]
  have c: "queue_operation 907000000 (other_args\<lparr>arg_chain_id := 7, arg_metadata := None\<rparr>)
      failed_store = queue_operation 907000000 other_args failed_store" .
  from a b c show ?thesis by (intro conjI)
qed

text \<open>
  Claim C2. Ingesting a hash a second time, after any gateway calls in between, never
  makes a second operation: exactly one operation has that hash before and after the second
  call, the table of operations keeps its length, and the operation returned is the existing
  one (same id, same hash). The second call appends one new job (status queued,
  \<open>attempt_count\<close> 0, a fresh id) that references that operation, and one
  \<open>queued\<close> event carrying the endpoint. If the existing operation is not queued, the
  second call resets it: status queued, \<open>failure_reason\<close> empty, \<open>completed_at\<close>
  null, every other field but \<open>updated_at\<close> as before.
\<close>

theorem queue_operation_same_hash_twice:
  assumes "wf_store s0" and "arg_user_op_hash a2 = arg_user_op_hash a1"
  shows "let s = run cs (snd (queue_operation t1 a1 s0));
             q = fst (queue_operation t2 a2 s);
             s' = snd (queue_operation t2 a2 s)
         in length (filter (\<lambda>row. user_op_hash row = arg_user_op_hash a1) (operations s)) = 1
          \<and> length (filter (\<lambda>row. user_op_hash row = arg_user_op_hash a1) (operations s')) = 1
          \<and> length (operations s') = length (operations s)
          \<and> (\<exists>u. get_operation_by_hash s (arg_user_op_hash a1) = Some u
               \<and> op_id (qo_user_operation q) = op_id u
               \<and> user_op_hash (qo_user_operation q) = arg_user_op_hash a1
               \<and> jobs s' = jobs s @ [qo_bundler_job q]
               \<and> job_id (qo_bundler_job q) \<notin> set (map job_id (jobs s))
               \<and> job_user_operation (qo_bundler_job q) = op_id u
               \<and> job_status (qo_bundler_job q) = JobQueued
               \<and> attempt_count (qo_bundler_job q) = 0
               \<and> take (length (events s)) (events s') = events s
               \<and> new_events s s' = [(op_id u, ''queued'', [(''endpoint'', JStr (arg_endpoint a2))], t2)]
               \<and> (op_status u \<noteq> OpQueued \<longrightarrow>
                    get_operation_by_hash s' (arg_user_op_hash a1) =
                      Some (u\<lparr>op_status := OpQueued, failure_reason := [],
                              completed_at := None, op_updated_at := t2\<rparr>)))"
proof -
  let ?h = "arg_user_op_hash a1"
  let ?s = "run cs (snd (queue_operation t1 a1 s0))"
  let ?q = "fst (queue_operation t2 a2 ?s)"
  let ?s' = "snd (queue_operation t2 a2 ?s)"
  have wf: "wf_store ?s" using assms(1) by (intro wf_store_run wf_store_queue_operation)
  have wf': "wf_store ?s'" using wf by (rule wf_store_queue_operation)
  have hm: "?h \<in> set (map user_op_hash (operations ?s))"
    by (intro hashes_run queue_operation_hash_present)
  then obtain u where u: "get_operation_by_hash ?s (arg_user_op_hash a2) = Some u"
    using get_operation_by_hash_None [of ?s ?h] assms(2)
    by (cases "get_operation_by_hash ?s (arg_user_op_hash a2)") auto
  note sh = queue_operation_shape_existing [OF u, of t2]
  note ex = queue_operation_existing [OF u, of t2]
  have hm': "?h \<in> set (map user_op_hash (operations ?s'))" using hm sh(2) by simp
  have c1: "length (filter (\<lambda>row. user_op_hash row = ?h) (operations ?s)) = 1"
    using wf hm unfolding wf_store_def by (intro count_distinct_key) simp_all
  have c2: "length (filter (\<lambda>row. user_op_hash row = ?h) (operations ?s')) = 1"
    using wf' hm' unfolding wf_store_def by (intro count_distinct_key) simp_all
  have c3: "length (operations ?s') = length (operations ?s)"
    using sh(1) by (metis length_map)
  have d1: "get_operation_by_hash ?s ?h = Some u" using u assms(2) by simp
  have d2: "op_id (qo_user_operation ?q) = op_id u" by (simp add: ex)
  have d3: "user_op_hash (qo_user_operation ?q) = ?h"
    using get_operation_by_hash_Some [OF d1] by (simp add: ex)
  have d4: "jobs ?s' = jobs ?s @ [qo_bundler_job ?q]" by (simp add: ex)
  have d5: "job_id (qo_bundler_job ?q) \<notin> set (map job_id (jobs ?s))"
    using fresh_uuid_notin [of "map job_id (jobs ?s)"] by (simp add: ex)
  have d6: "job_user_operation (qo_bundler_job ?q) = op_id u" by (simp add: ex)
  have d7: "job_status (qo_bundler_job ?q) = JobQueued" by (simp add: ex)
  have d8: "attempt_count (qo_bundler_job ?q) = 0" by (simp add: ex)
  have d9: "take (length (events ?s)) (events ?s') = events ?s" by (simp add: ex)
  have d10: "new_events ?s ?s' = [(op_id u, ''queued'', [(''endpoint'', JStr (arg_endpoint a2))], t2)]"
    by (simp add: ex new_events_def ev_core_def)
  have d11: "op_status u \<noteq> OpQueued \<longrightarrow>
      get_operation_by_hash ?s' ?h =
        Some (u\<lparr>op_status := OpQueued, failure_reason := [], completed_at := None,
                op_updated_at := t2\<rparr>)"
  proof
    assume ne: "op_status u \<noteq> OpQueued"
    let ?R = "\<lambda>row. if op_id row = op_id u
                      then row\<lparr>op_status := OpQueued, failure_reason := [],
                               completed_at := None, op_updated_at := t2\<rparr>
                      else row"
    have os: "operations ?s' = map ?R (operations ?s)" using ne by (simp add: ex)
    have "get_operation_by_hash ?s' ?h = map_option ?R (get_operation_by_hash ?s ?h)"
      unfolding get_operation_by_hash_def os by (rule find_map_keeps) simp
    then show "get_operation_by_hash ?s' ?h =
        Some (u\<lparr>op_status := OpQueued, failure_reason := [], completed_at := None,
                op_updated_at := t2\<rparr>)"
      using d1 by simp
  qed
  show ?thesis
    unfolding Let_def
    by (intro conjI exI [of _ u] c1 c2 c3 d1 d2 d3 d4 d5 d6 d7 d8 d9 d10 d11)
qed

theorem queue_operation_same_hash_twice_witness:
  "map (\<lambda>u. (user_op_hash u, op_status u, failure_reason u, completed_at u))
     (operations failed_store) =
     [(''0xabc123'', OpFailed, ''Dispatch attempts exceeded'', Some 906000000)]
   \<and> length (operations (snd (queue_operation 907000000 other_args failed_store))) = 1
   \<and> map (\<lambda>u. (user_op_hash u, op_status u, failure_reason u, completed_at u))
       (operations (snd (queue_operation 907000000 other_args failed_store))) =
     [(''0xabc123'', OpQueued, [], None)]
   \<and> map (\<lambda>j. (job_id j, job_user_operation j, job_status j, attempt_count j))
       (jobs (snd (queue_operation 907000000 other_args failed_store))) =
     [(1, 1, JobFailed, 3), (2, 1, JobQueued, 0)]"
proof -
  let ?cs = "[(1000000, DispatchBatch 10), (302000000, ReconcileInflight 50),
              (303000000, DispatchBatch 10), (604000000, ReconcileInflight 50),
              (605000000, DispatchBatch 10), (906000000, ReconcileInflight 50)]"
  have fs: "run ?cs (snd (queue_operation 0 sample_args empty_store)) = failed_store"
    by (simp add: failed_store_def)
  have h: "arg_user_op_hash other_args = arg_user_op_hash sample_args"
    by (simp add: other_args_def sample_args_def)
  note inst = queue_operation_same_hash_twice [OF wf_store_empty h, of ?cs 0 907000000,
      unfolded Let_def fs]
  have a: "map (\<lambda>u. (user_op_hash u, op_status u, failure_reason u, completed_at u))
      (operations failed_store) =
      [(''0xabc123'', OpFailed, ''Dispatch attempts exceeded'', Some 906000000)]"
    by code_simp
  have b: "length (operations failed_store) = 1" by code_simp
  have c: "map (\<lambda>u. (user_op_hash u, op_status u, failure_reason u, completed_at u))
       (operations (snd (queue_operation 907000000 other_args failed_store))) =
     [(''0xabc123'', OpQueued, [], None)]"
    by code_simp
  have d: "map (\<lambda>j. (job_id j, job_user_operation j, job_status j, attempt_count j))
       (jobs (snd (queue_operation 907000000 other_args failed_store))) =
     [(1, 1, JobFailed, 3), (2, 1, JobQueued, 0)]"
    by code_simp
  from inst [THEN conjunct2, THEN conjunct2, THEN conjunct1] b
  have e: "length (operations (snd (queue_operation 907000000 other_args failed_store))) = 1"
    by simp
  from a e c d show ?thesis by (intro conjI)
qed

text \<open>
  Claim C5, as amended. Let a job be selected by \<open>reconcile_inflight\<close> (status
  dispatching, \<open>last_attempt_at\<close> older than the cutoff) with \<open>attempt_count\<close> at least 3.
  After the call the job is failed with a non-empty \<open>last_error\<close> (its own, or the default
  message), and exactly one \<open>failed\<close> event with this \<open>job_id\<close> and reason is among the
  appended events. If every job of the same operation examined later in the call also has
  \<open>attempt_count\<close> at least 3, the parent operation is failed, with \<open>completed_at\<close> now
  and a non-empty \<open>failure_reason\<close>: the reason of the last examined job of the operation,
  which is this job's reason when the later jobs' reasons agree with it.
\<close>

theorem reconcile_inflight_fails_exhausted_job:
  assumes "distinct (map job_id (jobs s))" and "fk_ok s"
    and "i < length (spec_stale_selection now limit s)"
    and "attempt_count (spec_stale_selection now limit s ! i) \<ge> 3"
  shows "let sel = spec_stale_selection now limit s;
             j = sel ! i;
             s' = snd (reconcile_inflight now limit s)
         in job_status j = JobDispatching
          \<and> (\<exists>t. last_attempt_at j = Some t \<and> t < now - 300000000)
          \<and> get_job s' (job_id j) =
              Some (j\<lparr>job_status := JobFailed, last_error := failure_message j,
                       job_updated_at := now\<rparr>)
          \<and> failure_message j \<noteq> []
          \<and> failure_message j =
              (if last_error j \<noteq> [] then last_error j else ''Dispatch attempts exceeded'')
          \<and> take (length (events s)) (events s') = events s
          \<and> length (filter (\<lambda>e. e = (job_user_operation j, ''failed'',
                                      [(''job_id'', JUuid (job_id j)),
                                       (''reason'', JStr (failure_message j))], now))
                      (new_events s s')) = 1
          \<and> ((\<forall>k. i < k \<and> k < length sel \<and>
                    job_user_operation (sel ! k) = job_user_operation j \<longrightarrow>
                    attempt_count (sel ! k) \<ge> 3) \<longrightarrow>
              (\<exists>u. get_operation s' (job_user_operation j) = Some u
                 \<and> op_status u = OpFailed \<and> failure_reason u \<noteq> []
                 \<and> completed_at u = Some now
                 \<and> (\<exists>m. i \<le> m \<and> m < length sel
                       \<and> job_user_operation (sel ! m) = job_user_operation j
                       \<and> attempt_count (sel ! m) \<ge> 3
                       \<and> failure_reason u = failure_message (sel ! m))
                 \<and> ((\<forall>k. i < k \<and> k < length sel \<and>
                          job_user_operation (sel ! k) = job_user_operation j \<longrightarrow>
                          failure_message (sel ! k) = failure_message j) \<longrightarrow>
                     failure_reason u = failure_message j)))"
proof -
  let ?sel = "spec_stale_selection now limit s"
  let ?j = "?sel ! i"
  let ?s' = "snd (reconcile_inflight now limit s)"
  let ?ps = "inflight now limit s"
  have jm: "?j \<in> set ?sel" using assms(3) by simp
  have sel: "map fst ?ps = ?sel" using assms(2) by (rule inflight_fst)
  have fst_nth: "fst (?ps ! i) = ?j" using sel assms(3) by (metis length_map nth_map)
  have st: "stale (now - 300000000) ?j" using jm spec_stale_selection_subset by blast
  have c1: "job_status ?j = JobDispatching \<and> (\<exists>t. last_attempt_at ?j = Some t \<and> t < now - 300000000)"
    using st by (simp add: stale_iff)
  have c2: "get_job ?s' (job_id ?j) =
      Some (?j\<lparr>job_status := JobFailed, last_error := failure_message ?j, job_updated_at := now\<rparr>)"
    using reconcile_selected_job [OF assms(1,2) jm] assms(4)
    by (simp add: reconciled_job_row_def)
  have c3: "failure_message ?j \<noteq> []" by simp
  have c4: "failure_message ?j =
      (if last_error ?j \<noteq> [] then last_error ?j else ''Dispatch attempts exceeded'')"
    by (simp add: failure_message_def)
  have c5: "take (length (events s)) (events ?s') = events s"
    by (simp add: reconcile_inflight_store reconcile_loop_events_prefix)
  have ev: "reconcile_event now ?j = (job_user_operation ?j, ''failed'',
      [(''job_id'', JUuid (job_id ?j)), (''reason'', JStr (failure_message ?j))], now)"
    using assms(4) by (simp add: reconcile_event_def)
  have dsel: "distinct ?sel"
    using spec_stale_selection_distinct [OF assms(1), of now limit] by (simp add: distinct_map)
  have same: "reconcile_event now x = reconcile_event now ?j \<longleftrightarrow> x = ?j" if "x \<in> set ?sel" for x
  proof
    assume "reconcile_event now x = reconcile_event now ?j"
    then have "job_id x = job_id ?j" by (rule reconcile_event_inj)
    moreover have "x \<in> set (jobs s)" "?j \<in> set (jobs s)"
      using that jm spec_stale_selection_subset by blast+
    ultimately show "x = ?j" using assms(1) by (metis distinct_map inj_onD)
  qed simp
  have "filter (\<lambda>e. e = reconcile_event now ?j) (map (reconcile_event now) ?sel) =
      map (reconcile_event now) (filter (\<lambda>x. reconcile_event now x = reconcile_event now ?j) ?sel)"
    by (simp add: filter_map comp_def)
  also have "filter (\<lambda>x. reconcile_event now x = reconcile_event now ?j) ?sel =
      filter (\<lambda>x. x = ?j) ?sel"
    by (rule filter_cong) (simp_all add: same)
  finally have "length (filter (\<lambda>e. e = reconcile_event now ?j) (map (reconcile_event now) ?sel)) = 1"
    using length_filter_eq_one [OF dsel jm] by simp
  then have c6: "length (filter (\<lambda>e. e = (job_user_operation ?j, ''failed'',
      [(''job_id'', JUuid (job_id ?j)), (''reason'', JStr (failure_message ?j))], now))
      (new_events s ?s')) = 1"
    by (simp add: reconcile_new_events [OF assms(2)] ev)
  have c7: "\<exists>u. get_operation ?s' (job_user_operation ?j) = Some u
      \<and> op_status u = OpFailed \<and> failure_reason u \<noteq> []
      \<and> completed_at u = Some now
      \<and> (\<exists>m. i \<le> m \<and> m < length ?sel
            \<and> job_user_operation (?sel ! m) = job_user_operation ?j
            \<and> attempt_count (?sel ! m) \<ge> 3
            \<and> failure_reason u = failure_message (?sel ! m))
      \<and> ((\<forall>k. i < k \<and> k < length ?sel \<and>
               job_user_operation (?sel ! k) = job_user_operation ?j \<longrightarrow>
               failure_message (?sel ! k) = failure_message ?j) \<longrightarrow>
          failure_reason u = failure_message ?j)"
    if later: "\<forall>k. i < k \<and> k < length ?sel \<and>
        job_user_operation (?sel ! k) = job_user_operation ?j \<longrightarrow> attempt_count (?sel ! k) \<ge> 3"
  proof -
    from last_sharing_index [of i "length ?sel" "\<lambda>k. job_user_operation (?sel ! k)", OF assms(3) refl]
    obtain m where m: "i \<le> m" "m < length ?sel"
      "job_user_operation (?sel ! m) = job_user_operation ?j"
      "\<forall>k. m < k \<and> k < length ?sel \<longrightarrow>
         job_user_operation (?sel ! k) \<noteq> job_user_operation ?j"
      by blast
    have am: "attempt_count (?sel ! m) \<ge> 3"
    proof (cases "m = i")
      case True
      with assms(4) show ?thesis by simp
    next
      case False
      with m(1) have "i < m" by simp
      with later m(2,3) show ?thesis by blast
    qed
    have "\<forall>k. m < k \<and> k < length ?sel \<longrightarrow>
        job_user_operation (?sel ! k) \<noteq> job_user_operation (?sel ! m)"
      using m(3,4) by simp
    from reconcile_last_writer [OF assms(2) m(2) this]
    obtain u0 where u0: "get_operation ?s' (job_user_operation (?sel ! m)) =
        Some (reconciled_op_row now (?ps ! m) u0)" "op_id u0 = op_id (snd (?ps ! m))"
      by blast
    have fm: "fst (?ps ! m) = ?sel ! m" using sel m(2) by (metis length_map nth_map)
    let ?u = "reconciled_op_row now (?ps ! m) u0"
    have g: "get_operation ?s' (job_user_operation ?j) = Some ?u" using u0(1) m(3) by simp
    have st: "op_status ?u = OpFailed" "completed_at ?u = Some now"
      "failure_reason ?u = failure_message (?sel ! m)"
      using u0(2) am fm by (simp_all add: reconciled_op_row_def)
    have ne: "failure_reason ?u \<noteq> []" using st(3) by simp
    have ex: "\<exists>m. i \<le> m \<and> m < length ?sel
        \<and> job_user_operation (?sel ! m) = job_user_operation ?j
        \<and> attempt_count (?sel ! m) \<ge> 3
        \<and> failure_reason ?u = failure_message (?sel ! m)"
      using m(1,2,3) am st(3) by blast
    have same: "failure_reason ?u = failure_message ?j"
      if agree: "\<forall>k. i < k \<and> k < length ?sel \<and>
          job_user_operation (?sel ! k) = job_user_operation ?j \<longrightarrow>
          failure_message (?sel ! k) = failure_message ?j"
    proof (cases "m = i")
      case True
      with st(3) show ?thesis by simp
    next
      case False
      with m(1) have "i < m" by simp
      with agree m(2,3) have "failure_message (?sel ! m) = failure_message ?j" by blast
      with st(3) show ?thesis by simp
    qed
    show ?thesis
      by (intro exI [of _ ?u] conjI g st(1) ne st(2) ex impI same)
  qed
  from c1 c2 c3 c4 c5 c6 c7 show ?thesis unfolding Let_def by blast
qed


theorem reconcile_inflight_fails_exhausted_job_witness:
  "reachable both_exhausted_store
   \<and> map (\<lambda>j. (job_id j, job_user_operation j, attempt_count j))
        (spec_stale_selection 1000000000 50 both_exhausted_store) = [(1, 1, 3), (2, 1, 3)]
   \<and> (\<exists>u. get_operation (snd (reconcile_inflight 1000000000 50 both_exhausted_store)) 1 = Some u
        \<and> op_status u = OpFailed \<and> failure_reason u = ''Dispatch attempts exceeded''
        \<and> completed_at u = Some 1000000000)"
proof -
  let ?s = both_exhausted_store
  let ?sel = "spec_stale_selection 1000000000 50 ?s"
  have r: "reachable ?s"
    unfolding both_exhausted_store_def by (rule run_reachable) (rule reachable_empty)
  have h1: "distinct (map job_id (jobs ?s))" by code_simp
  have h2: "fk_ok ?s" by code_simp
  have shape: "map (\<lambda>j. (job_id j, job_user_operation j, attempt_count j)) ?sel =
      [(1, 1, 3), (2, 1, 3)]" by code_simp
  have len: "length ?sel = 2" by code_simp
  have h3: "0 < length ?sel" using len by simp
  have h4: "attempt_count (?sel ! 0) \<ge> 3" by code_simp
  have a1: "attempt_count (?sel ! 1) \<ge> 3" by code_simp
  have m1: "failure_message (?sel ! 1) = failure_message (?sel ! 0)" by code_simp
  have op: "job_user_operation (?sel ! 0) = 1" by code_simp
  have msg: "failure_message (?sel ! 0) = ''Dispatch attempts exceeded''" by code_simp
  have k1: "k = 1" if "0 < k \<and> k < length ?sel" for k using that len by simp
  have later: "\<forall>k. 0 < k \<and> k < length ?sel \<and>
      job_user_operation (?sel ! k) = job_user_operation (?sel ! 0) \<longrightarrow>
      attempt_count (?sel ! k) \<ge> 3"
    using a1 k1 by blast
  have agree: "\<forall>k. 0 < k \<and> k < length ?sel \<and>
      job_user_operation (?sel ! k) = job_user_operation (?sel ! 0) \<longrightarrow>
      failure_message (?sel ! k) = failure_message (?sel ! 0)"
    using m1 k1 by blast
  from reconcile_inflight_fails_exhausted_job [OF h1 h2 h3 h4, unfolded Let_def]
  have "(\<forall>k. 0 < k \<and> k < length ?sel \<and>
            job_user_operation (?sel ! k) = job_user_operation (?sel ! 0) \<longrightarrow>
            attempt_count (?sel ! k) \<ge> 3) \<longrightarrow>
      (\<exists>u. get_operation (snd (reconcile_inflight 1000000000 50 ?s))
              (job_user_operation (?sel ! 0)) = Some u
         \<and> op_status u = OpFailed \<and> failure_reason u \<noteq> []
         \<and> completed_at u = Some 1000000000
         \<and> (\<exists>m. 0 \<le> m \<and> m < length ?sel
               \<and> job_user_operation (?sel ! m) = job_user_operation (?sel ! 0)
               \<and> attempt_count (?sel ! m) \<ge> 3
               \<and> failure_reason u = failure_message (?sel ! m))
         \<and> ((\<forall>k. 0 < k \<and> k < length ?sel \<and>
                  job_user_operation (?sel ! k) = job_user_operation (?sel ! 0) \<longrightarrow>
                  failure_message (?sel ! k) = failure_message (?sel ! 0)) \<longrightarrow>
             failure_reason u = failure_message (?sel ! 0)))"
    by (elim conjE)
  with later obtain u where u:
    "get_operation (snd (reconcile_inflight 1000000000 50 ?s)) (job_user_operation (?sel ! 0)) = Some u"
    "op_status u = OpFailed" "completed_at u = Some 1000000000"
    "(\<forall>k. 0 < k \<and> k < length ?sel \<and>
          job_user_operation (?sel ! k) = job_user_operation (?sel ! 0) \<longrightarrow>
          failure_message (?sel ! k) = failure_message (?sel ! 0)) \<longrightarrow>
     failure_reason u = failure_message (?sel ! 0)"
    by blast
  from u(4) agree have "failure_reason u = failure_message (?sel ! 0)" by blast
  then have fr: "failure_reason u = ''Dispatch attempts exceeded''" unfolding msg .
  from u(1) have g: "get_operation (snd (reconcile_inflight 1000000000 50 ?s)) 1 = Some u"
    unfolding op .
  from g u(2) fr u(3) have "\<exists>u. get_operation (snd (reconcile_inflight 1000000000 50 ?s)) 1 = Some u
        \<and> op_status u = OpFailed \<and> failure_reason u = ''Dispatch attempts exceeded''
        \<and> completed_at u = Some 1000000000"
    by blast
  with r shape show ?thesis by (intro conjI)
qed

theorem mark_included_replaces_tx_hash_counterexample:
  "reachable included_store
   \<and> map (\<lambda>j. (job_id j, job_status j)) (jobs included_store) = [(1, JobSucceeded)]
   \<and> map op_metadata (operations included_store) =
       [[(''source'', JStr ''test''), (''tx_hash'', JStr ''0xAA'')]]
   \<and> map op_metadata (operations (gateway_step 3000000 (MarkIncluded 1 ''0xBB'') included_store)) =
       [[(''source'', JStr ''test''), (''tx_hash'', JStr ''0xBB'')]]"
proof -
  have "reachable included_store"
    unfolding included_store_def by (rule run_reachable) (rule reachable_empty)
  moreover have "map (\<lambda>j. (job_id j, job_status j)) (jobs included_store) = [(1, JobSucceeded)]"
    by code_simp
  moreover have "map op_metadata (operations included_store) =
       [[(''source'', JStr ''test''), (''tx_hash'', JStr ''0xAA'')]]"
    by code_simp
  moreover have "map op_metadata
        (operations (gateway_step 3000000 (MarkIncluded 1 ''0xBB'') included_store)) =
       [[(''source'', JStr ''test''), (''tx_hash'', JStr ''0xBB'')]]"
    by code_simp
  ultimately show ?thesis by (intro conjI)
qed

lemma find_append:
  "find P (xs @ ys) = (case find P xs of None \<Rightarrow> find P ys | Some x \<Rightarrow> Some x)"
  by (induction xs) simp_all

lemma dispatch_unselected_job:
  assumes dist: "distinct (map job_id (jobs s))" and fk: "fk_ok s"
    and mem: "j \<in> set (jobs s)" and out: "j \<notin> set (spec_dispatch_selection n s)"
  shows "get_job (snd (dispatch_batch now n s)) (job_id j) = Some j"
proof -
  let ?ps = "queued_jobs n s"
  let ?g = "\<lambda>p. dispatched_job_row now (fst p)"
  have sel: "map fst ?ps = spec_dispatch_selection n s" using fk by (rule queued_jobs_fst)
  have "get_job s (job_id j) = Some j" using dist mem by (intro get_job_distinct)
  moreover have "fold ?g ?ps j = j"
  proof (rule fold_row_untouched, rule ballI)
    fix p assume p: "p \<in> set ?ps"
    then have "fst p \<in> set (spec_dispatch_selection n s)"
      using sel by (metis image_eqI set_map)
    moreover have "fst p \<in> set (jobs s)" using queued_jobs_mem [OF p] by simp
    ultimately have "job_id (fst p) \<noteq> job_id j"
      using mem out dist by (metis distinct_map inj_onD)
    then show "?g p j = j" by (simp add: dispatched_job_row_def)
  qed
  ultimately show ?thesis by (simp add: dispatch_batch_store get_job_dispatch_loop)
qed

lemma dispatch_untouched_operation:
  assumes fk: "fk_ok s" and u: "get_operation s i = Some u"
    and out: "op_id u \<notin> set (map job_user_operation (spec_dispatch_selection n s))"
  shows "get_operation (snd (dispatch_batch now n s)) i = Some u"
proof -
  let ?ps = "queued_jobs n s"
  have sel: "map fst ?ps = spec_dispatch_selection n s" using fk by (rule queued_jobs_fst)
  have "op_id u \<notin> (\<lambda>p. op_id (snd p)) ` set ?ps"
  proof
    assume "op_id u \<in> (\<lambda>p. op_id (snd p)) ` set ?ps"
    then obtain p where p: "p \<in> set ?ps" "op_id u = op_id (snd p)" by blast
    have "op_id (snd p) = job_user_operation (fst p)"
      using queued_jobs_mem [OF p(1)] get_operation_Some by blast
    moreover have "fst p \<in> set (spec_dispatch_selection n s)"
      using sel p(1) by (metis image_eqI set_map)
    ultimately show False using out p(2) by simp
  qed
  then have "fold (\<lambda>p. dispatched_op_row now (op_id (snd p))) ?ps u = u"
    by (simp add: fold_dispatched_op_row)
  then show ?thesis by (simp add: dispatch_batch_store get_operation_dispatch_loop u)
qed

lemma reconcile_untouched_operation:
  assumes fk: "fk_ok s" and u: "get_operation s i = Some u"
    and out: "op_id u \<notin> set (map job_user_operation (spec_stale_selection now n s))"
  shows "get_operation (snd (reconcile_inflight now n s)) i = Some u"
proof -
  let ?ps = "inflight now n s"
  have sel: "map fst ?ps = spec_stale_selection now n s" using fk by (rule inflight_fst)
  have "fold (reconciled_op_row now) ?ps u = u"
  proof (rule fold_row_untouched, rule ballI)
    fix p assume p: "p \<in> set ?ps"
    have "op_id (snd p) = job_user_operation (fst p)"
      using inflight_mem [OF p] get_operation_Some by blast
    moreover have "fst p \<in> set (spec_stale_selection now n s)"
      using sel p by (metis image_eqI set_map)
    ultimately have "op_id (snd p) \<noteq> op_id u" using out by (metis image_eqI set_map)
    then show "reconciled_op_row now p u = u" by (simp add: reconciled_op_row_def)
  qed
  then show ?thesis by (simp add: reconcile_inflight_store get_operation_reconcile_loop u)
qed

lemma queue_untouched_operation:
  assumes wf: "wf_store s" and u: "get_operation s i = Some u"
    and out: "user_op_hash u \<noteq> arg_user_op_hash a"
  shows "get_operation (snd (queue_operation now a s)) i = Some u"
proof (cases "get_operation_by_hash s (arg_user_op_hash a)")
  case None
  show ?thesis
    unfolding get_operation_def queue_operation_shape_new(1) [OF None] find_append
    using u by (simp add: get_operation_def)
next
  case (Some v)
  from get_operation_by_hash_Some [OF Some] have v: "user_op_hash v = arg_user_op_hash a"
    "v \<in> set (operations s)" by simp_all
  from get_operation_Some [OF u] have um: "u \<in> set (operations s)" and ui: "op_id u = i" by simp_all
  have "u \<noteq> v" using out v(1) by auto
  then have ne: "op_id u \<noteq> op_id v"
    using wf um v(2) unfolding wf_store_def by (metis distinct_map inj_onD)
  let ?R = "\<lambda>row. if op_id row = op_id v
                    then row\<lparr>op_status := OpQueued, failure_reason := [],
                             completed_at := None, op_updated_at := now\<rparr>
                    else row"
  show ?thesis
  proof (cases "op_status v \<noteq> OpQueued")
    case True
    have os: "operations (snd (queue_operation now a s)) = map ?R (operations s)"
      using True by (simp add: queue_operation_existing [OF Some])
    have "get_operation (snd (queue_operation now a s)) i = map_option ?R (get_operation s i)"
      unfolding get_operation_def os by (rule find_map_keeps) simp
    then show ?thesis using u ne by simp
  next
    case False
    then have "operations (snd (queue_operation now a s)) = operations s"
      by (simp add: queue_operation_existing [OF Some])
    then show ?thesis using u by (simp add: get_operation_def)
  qed
qed

lemma queue_keeps_job:
  assumes "get_job s i = Some j"
  shows "get_job (snd (queue_operation now a s)) i = Some j"
proof (cases "get_operation_by_hash s (arg_user_op_hash a)")
  case None
  show ?thesis
    unfolding get_job_def queue_operation_shape_new(2) [OF None] find_append
    using assms by (simp add: get_job_def)
next
  case (Some v)
  show ?thesis
    unfolding get_job_def queue_operation_shape_existing(3) [OF Some] find_append
    using assms by (simp add: get_job_def)
qed

lemma not_eligible_not_selected:
  "job_status j \<in> {JobSucceeded, JobFailed} \<Longrightarrow> j \<notin> set (spec_dispatch_selection n s)"
  using spec_dispatch_selection_subset [of n s] by (auto simp: dispatch_eligible_def)

lemma not_stale_not_selected:
  "job_status j \<in> {JobSucceeded, JobFailed} \<Longrightarrow> j \<notin> set (spec_stale_selection now n s)"
  using spec_stale_selection_subset [of now n s] by (auto simp: stale_iff)

lemma terminal_job_kept:
  assumes wf: "wf_store s" and j: "get_job s i = Some j"
    and t: "job_status j \<in> {JobSucceeded, JobFailed}"
    and c: "\<not> (job_status j = JobFailed \<and> (\<exists>tx. c = MarkIncluded i tx))"
  shows "\<exists>j'. get_job (gateway_step now c s) i = Some j' \<and> job_status j' = job_status j"
proof (cases c)
  case (QueueOperation a)
  show ?thesis unfolding QueueOperation using queue_keeps_job [OF j] by simp
next
  case (DispatchBatch n)
  from get_job_Some [OF j] have ji: "job_id j = i" and jm: "j \<in> set (jobs s)" by simp_all
  have "get_job (snd (dispatch_batch now n s)) (job_id j) = Some j"
    using wf jm not_eligible_not_selected [OF t] unfolding wf_store_def
    by (intro dispatch_unselected_job) simp_all
  then show ?thesis unfolding DispatchBatch using ji by simp
next
  case (ReconcileInflight n)
  from get_job_Some [OF j] have ji: "job_id j = i" and jm: "j \<in> set (jobs s)" by simp_all
  have "get_job (snd (reconcile_inflight now n s)) (job_id j) = Some j"
    using wf jm not_stale_not_selected [OF t] unfolding wf_store_def
    by (intro reconcile_unselected_job) simp_all
  then show ?thesis unfolding ReconcileInflight using ji by simp
next
  case (MarkIncluded jid tx)
  show ?thesis
  proof (cases rule: mark_included_step [of now jid tx s])
    case not_found
    then show ?thesis unfolding MarkIncluded using j by simp
  next
    case (found j0 u0)
    have "get_job (gateway_step now (MarkIncluded jid tx) s) i =
        map_option (included_job_row now jid) (get_job s i)"
      unfolding get_job_def found(4) by (rule find_map_keeps) simp
    then have g: "get_job (gateway_step now c s) i = Some (included_job_row now jid j)"
      unfolding MarkIncluded using j by simp
    from get_job_Some [OF j] have ji: "job_id j = i" by simp
    have "job_status (included_job_row now jid j) = job_status j"
    proof (cases "i = jid")
      case True
      with c MarkIncluded have "job_status j \<noteq> JobFailed" by simp
      with t have "job_status j = JobSucceeded" by simp
      then show ?thesis by (simp add: included_job_row_def)
    next
      case False
      then show ?thesis using ji by (simp add: included_job_row_def)
    qed
    with g show ?thesis by simp
  qed
qed

lemma included_operation_kept:
  assumes wf: "wf_store s" and u: "get_operation s i = Some u"
    and t: "op_status u = OpIncluded"
    and c: "\<not> touches_operation now c s u"
  shows "\<exists>u'. get_operation (gateway_step now c s) i = Some u' \<and> op_status u' = OpIncluded"
proof (cases c)
  case (QueueOperation a)
  from c have "user_op_hash u \<noteq> arg_user_op_hash a" unfolding QueueOperation by simp
  from queue_untouched_operation [OF wf u this]
  show ?thesis unfolding QueueOperation using t by simp
next
  case (DispatchBatch n)
  from c have "op_id u \<notin> set (map job_user_operation (spec_dispatch_selection n s))"
    unfolding DispatchBatch by simp
  with wf u have "get_operation (snd (dispatch_batch now n s)) i = Some u"
    unfolding wf_store_def by (intro dispatch_untouched_operation) simp_all
  then show ?thesis unfolding DispatchBatch using t by simp
next
  case (ReconcileInflight n)
  from c have "op_id u \<notin> set (map job_user_operation (spec_stale_selection now n s))"
    unfolding ReconcileInflight by simp
  with wf u have "get_operation (snd (reconcile_inflight now n s)) i = Some u"
    unfolding wf_store_def by (intro reconcile_untouched_operation) simp_all
  then show ?thesis unfolding ReconcileInflight using t by simp
next
  case (MarkIncluded jid tx)
  show ?thesis
  proof (cases rule: mark_included_step [of now jid tx s])
    case not_found
    then show ?thesis unfolding MarkIncluded using u t by simp
  next
    case (found j0 u0)
    have "get_operation (gateway_step now (MarkIncluded jid tx) s) i =
        map_option (included_op_row now tx u0) (get_operation s i)"
      unfolding get_operation_def found(5) by (rule find_map_keeps) simp
    then have "get_operation (gateway_step now c s) i = Some (included_op_row now tx u0 u)"
      unfolding MarkIncluded using u by simp
    moreover have "op_status (included_op_row now tx u0 u) = OpIncluded"
      using t by (simp add: included_op_row_def)
    ultimately show ?thesis by simp
  qed
qed

text \<open>
  Claim C3, as amended. In every reachable store and for every single gateway call: a
  succeeded job keeps its status; a failed job keeps its status unless the call is
  \<open>mark_included\<close> naming that job; an included operation keeps its status unless the
  call ingests its hash, claims one of its jobs or examines one of its stale jobs
  (\<open>touches_operation\<close>); \<open>mark_included\<close> never changes the status of an included
  operation.
\<close>

theorem terminal_statuses_kept_unless_written:
  assumes "reachable s"
  shows "(\<forall>i j. get_job s i = Some j \<and> job_status j \<in> {JobSucceeded, JobFailed}
              \<and> \<not> (job_status j = JobFailed \<and> (\<exists>tx. c = MarkIncluded i tx)) \<longrightarrow>
            (\<exists>j'. get_job (gateway_step now c s) i = Some j' \<and> job_status j' = job_status j))
       \<and> (\<forall>i u. get_operation s i = Some u \<and> op_status u = OpIncluded
              \<and> \<not> touches_operation now c s u \<longrightarrow>
            (\<exists>u'. get_operation (gateway_step now c s) i = Some u' \<and> op_status u' = OpIncluded))"
proof -
  have wf: "wf_store s" using assms by (rule reachable_wf_store)
  show ?thesis
  proof (intro conjI allI impI)
    fix i j
    assume "get_job s i = Some j \<and> job_status j \<in> {JobSucceeded, JobFailed}
        \<and> \<not> (job_status j = JobFailed \<and> (\<exists>tx. c = MarkIncluded i tx))"
    then have a: "get_job s i = Some j" "job_status j \<in> {JobSucceeded, JobFailed}"
      "\<not> (job_status j = JobFailed \<and> (\<exists>tx. c = MarkIncluded i tx))"
      by blast+
    from wf a show "\<exists>j'. get_job (gateway_step now c s) i = Some j' \<and> job_status j' = job_status j"
      by (rule terminal_job_kept)
  next
    fix i u
    assume "get_operation s i = Some u \<and> op_status u = OpIncluded \<and> \<not> touches_operation now c s u"
    then have a: "get_operation s i = Some u" "op_status u = OpIncluded"
      "\<not> touches_operation now c s u"
      by blast+
    from wf a show "\<exists>u'. get_operation (gateway_step now c s) i = Some u' \<and> op_status u' = OpIncluded"
      by (rule included_operation_kept)
  qed
qed

theorem terminal_statuses_kept_unless_written_witness:
  "reachable included_with_inflight_store
   \<and> (\<exists>j'. get_job (gateway_step 5000000 (DispatchBatch 10) included_with_inflight_store) 1 = Some j'
         \<and> job_status j' = JobSucceeded)
   \<and> (\<exists>u'. get_operation (gateway_step 5000000 (DispatchBatch 10) included_with_inflight_store) 1
           = Some u' \<and> op_status u' = OpIncluded)"
proof -
  let ?s = included_with_inflight_store
  have r: "reachable ?s"
    unfolding included_with_inflight_store_def by (rule run_reachable) (rule reachable_empty)
  obtain j where j: "get_job ?s 1 = Some j" "job_status j = JobSucceeded"
  proof -
    have "case get_job ?s 1 of None \<Rightarrow> False | Some j \<Rightarrow> job_status j = JobSucceeded"
      by code_simp
    then show ?thesis using that by (cases "get_job ?s 1") simp_all
  qed
  obtain u where u: "get_operation ?s 1 = Some u" "op_status u = OpIncluded" "op_id u = 1"
  proof -
    have "case get_operation ?s 1 of None \<Rightarrow> False
        | Some u \<Rightarrow> op_status u = OpIncluded \<and> op_id u = 1"
      by code_simp
    then show ?thesis using that by (cases "get_operation ?s 1") simp_all
  qed
  have sel: "spec_dispatch_selection 10 ?s = []" by code_simp
  have nt: "\<not> touches_operation 5000000 (DispatchBatch 10) ?s u" by (simp add: sel)
  note inst = terminal_statuses_kept_unless_written [OF r, of "DispatchBatch 10" 5000000]
  have pj: "get_job ?s 1 = Some j \<and> job_status j \<in> {JobSucceeded, JobFailed}
      \<and> \<not> (job_status j = JobFailed \<and> (\<exists>tx. DispatchBatch 10 = MarkIncluded 1 tx))"
    using j by simp
  have pu: "get_operation ?s 1 = Some u \<and> op_status u = OpIncluded
      \<and> \<not> touches_operation 5000000 (DispatchBatch 10) ?s u"
    using u(1,2) nt by (intro conjI)
  have a: "\<exists>j'. get_job (gateway_step 5000000 (DispatchBatch 10) ?s) 1 = Some j'
      \<and> job_status j' = job_status j"
    using pj by (rule inst [THEN conjunct1, rule_format])
  have b: "\<exists>u'. get_operation (gateway_step 5000000 (DispatchBatch 10) ?s) 1 = Some u'
      \<and> op_status u' = OpIncluded"
    using pu by (rule inst [THEN conjunct2, rule_format])
  from a have a': "\<exists>j'. get_job (gateway_step 5000000 (DispatchBatch 10) ?s) 1 = Some j'
      \<and> job_status j' = JobSucceeded"
    unfolding j(2) .
  from r a' b show ?thesis by (intro conjI)
qed

theorem terminal_statuses_overwritten_counterexample:
  "reachable failed_store
   \<and> map (\<lambda>j. (job_id j, job_status j)) (jobs failed_store) = [(1, JobFailed)]
   \<and> map (\<lambda>j. (job_id j, job_status j))
        (jobs (gateway_step 907000000 (MarkIncluded 1 ''0xAA'') failed_store)) = [(1, JobSucceeded)]
   \<and> reachable included_store
   \<and> map op_status (operations included_store) = [OpIncluded]
   \<and> map op_status (operations (gateway_step 3000000 (QueueOperation sample_args) included_store))
       = [OpQueued]
   \<and> reachable included_with_queued_store
   \<and> map op_status (operations included_with_queued_store) = [OpIncluded]
   \<and> map op_status (operations (gateway_step 3000000 (DispatchBatch 10) included_with_queued_store))
       = [OpDispatched]
   \<and> reachable included_with_inflight_store
   \<and> map op_status (operations included_with_inflight_store) = [OpIncluded]
   \<and> map op_status
        (operations (gateway_step 400000000 (ReconcileInflight 50) included_with_inflight_store))
       = [OpQueued]"
proof -
  have r1: "reachable failed_store"
    unfolding failed_store_def by (rule run_reachable) (rule reachable_empty)
  have a1: "map (\<lambda>j. (job_id j, job_status j)) (jobs failed_store) = [(1, JobFailed)]"
    by code_simp
  have b1: "map (\<lambda>j. (job_id j, job_status j))
        (jobs (gateway_step 907000000 (MarkIncluded 1 ''0xAA'') failed_store)) = [(1, JobSucceeded)]"
    by code_simp
  have r2: "reachable included_store"
    unfolding included_store_def by (rule run_reachable) (rule reachable_empty)
  have a2: "map op_status (operations included_store) = [OpIncluded]" by code_simp
  have b2: "map op_status
      (operations (gateway_step 3000000 (QueueOperation sample_args) included_store)) = [OpQueued]"
    by code_simp
  have r3: "reachable included_with_queued_store"
    unfolding included_with_queued_store_def by (rule run_reachable) (rule reachable_empty)
  have a3: "map op_status (operations included_with_queued_store) = [OpIncluded]" by code_simp
  have b3: "map op_status
      (operations (gateway_step 3000000 (DispatchBatch 10) included_with_queued_store))
       = [OpDispatched]"
    by code_simp
  have r4: "reachable included_with_inflight_store"
    unfolding included_with_inflight_store_def by (rule run_reachable) (rule reachable_empty)
  have a4: "map op_status (operations included_with_inflight_store) = [OpIncluded]" by code_simp
  have b4: "map op_status
        (operations (gateway_step 400000000 (ReconcileInflight 50) included_with_inflight_store))
       = [OpQueued]"
    by code_simp
  show ?thesis by (intro conjI r1 a1 b1 r2 a2 b2 r3 a3 b3 r4 a4 b4)
qed

subsection \<open>A terminal operation always has its completion time\<close>

lemma terminal_completed_rows:
  "terminal_completed r \<Longrightarrow> terminal_completed (dispatched_op_row now i r)"
  "terminal_completed r \<Longrightarrow> terminal_completed (reconciled_op_row now p r)"
  "terminal_completed r \<Longrightarrow> terminal_completed (included_op_row now tx u r)"
  by (simp_all add: terminal_completed_def dispatched_op_row_def reconciled_op_row_def
      included_op_row_def)

lemma terminal_completed_map:
  assumes "\<forall>u \<in> set rows. terminal_completed u"
    and "\<And>r. terminal_completed r \<Longrightarrow> terminal_completed (G r)"
  shows "\<forall>u \<in> set (map G rows). terminal_completed u"
  using assms by simp

lemma terminal_completed_step:
  assumes "\<forall>u \<in> set (operations s). terminal_completed u"
  shows "\<forall>u \<in> set (operations (gateway_step now c s)). terminal_completed u"
proof (cases c)
  case (QueueOperation a)
  show ?thesis
  proof (cases "get_operation_by_hash s (arg_user_op_hash a)")
    case None
    have "terminal_completed (new_operation now a s)" by (simp add: terminal_completed_def)
    then show ?thesis
      unfolding QueueOperation using assms by (simp add: queue_operation_shape_new [OF None])
  next
    case (Some v)
    let ?R = "\<lambda>row. if op_id row = op_id v
                      then row\<lparr>op_status := OpQueued, failure_reason := [],
                               completed_at := None, op_updated_at := now\<rparr>
                      else row"
    have R: "terminal_completed (?R r)" if "terminal_completed r" for r
      using that by (simp add: terminal_completed_def)
    have "operations (snd (queue_operation now a s)) =
        (if op_status v \<noteq> OpQueued then map ?R (operations s) else operations s)"
      by (simp add: queue_operation_existing [OF Some])
    moreover have "\<forall>u \<in> set (map ?R (operations s)). terminal_completed u"
      using assms R by (rule terminal_completed_map)
    ultimately show ?thesis unfolding QueueOperation using assms by simp
  qed
next
  case (DispatchBatch n)
  have "terminal_completed (fold (\<lambda>p. dispatched_op_row now (op_id (snd p))) ps r)"
    if "terminal_completed r" for r and ps :: "(bundler_job \<times> user_operation) list"
    using that by (induction ps arbitrary: r) (simp_all add: terminal_completed_rows)
  with assms have "\<forall>u \<in> set (map (fold (\<lambda>p. dispatched_op_row now (op_id (snd p)))
      (queued_jobs n s)) (operations s)). terminal_completed u"
    by (rule terminal_completed_map)
  then show ?thesis
    unfolding DispatchBatch by (simp add: dispatch_batch_store dispatch_loop_operations)
next
  case (ReconcileInflight n)
  have "terminal_completed (fold (reconciled_op_row now) ps r)"
    if "terminal_completed r" for r ps
    using that by (induction ps arbitrary: r) (simp_all add: terminal_completed_rows)
  with assms have "\<forall>u \<in> set (map (fold (reconciled_op_row now) (inflight now n s))
      (operations s)). terminal_completed u"
    by (rule terminal_completed_map)
  then show ?thesis
    unfolding ReconcileInflight
    by (simp add: reconcile_inflight_store reconcile_loop_operations)
next
  case (MarkIncluded jid tx)
  show ?thesis
  proof (cases rule: mark_included_step [of now jid tx s])
    case not_found
    then show ?thesis unfolding MarkIncluded using assms by simp
  next
    case (found j0 u0)
    from assms have "\<forall>u \<in> set (map (included_op_row now tx u0) (operations s)).
        terminal_completed u"
      by (rule terminal_completed_map) (rule terminal_completed_rows)
    then show ?thesis unfolding MarkIncluded found(5) .
  qed
qed

lemma reachable_terminal_completed:
  "reachable s \<Longrightarrow> \<forall>u \<in> set (operations s). terminal_completed u"
proof (induction rule: reachable.induct)
  case reachable_empty
  then show ?case by (simp add: empty_store_def)
next
  case (reachable_step s now c)
  from reachable_step.IH show ?case by (rule terminal_completed_step)
qed

text \<open>
  Claim C9 fails on the code. An operation with two jobs is included through the first;
  reconciling (or dispatching) the second writes the operation's status queued (or
  dispatched) and leaves \<open>completed_at\<close> set. Re-ingesting the hash, the other path back
  to queued, does clear \<open>completed_at\<close>.
\<close>

theorem completed_at_survives_requeue_and_dispatch:
  "reachable (gateway_step 400000000 (ReconcileInflight 50) included_with_inflight_store)
   \<and> map (\<lambda>u. (op_status u, completed_at u))
        (operations (gateway_step 400000000 (ReconcileInflight 50) included_with_inflight_store))
       = [(OpQueued, Some 2000000)]
   \<and> reachable (gateway_step 3000000 (DispatchBatch 10) included_with_queued_store)
   \<and> map (\<lambda>u. (op_status u, completed_at u))
        (operations (gateway_step 3000000 (DispatchBatch 10) included_with_queued_store))
       = [(OpDispatched, Some 2000000)]
   \<and> map (\<lambda>u. (op_status u, completed_at u))
        (operations (gateway_step 3000000 (QueueOperation sample_args) included_store))
       = [(OpQueued, None)]"
proof -
  have r4: "reachable included_with_inflight_store"
    unfolding included_with_inflight_store_def by (rule run_reachable) (rule reachable_empty)
  then have r: "reachable (gateway_step 400000000 (ReconcileInflight 50) included_with_inflight_store)"
    by (rule reachable_step)
  have r3: "reachable included_with_queued_store"
    unfolding included_with_queued_store_def by (rule run_reachable) (rule reachable_empty)
  then have r': "reachable (gateway_step 3000000 (DispatchBatch 10) included_with_queued_store)"
    by (rule reachable_step)
  have a: "map (\<lambda>u. (op_status u, completed_at u))
        (operations (gateway_step 400000000 (ReconcileInflight 50) included_with_inflight_store))
       = [(OpQueued, Some 2000000)]"
    by code_simp
  have b: "map (\<lambda>u. (op_status u, completed_at u))
        (operations (gateway_step 3000000 (DispatchBatch 10) included_with_queued_store))
       = [(OpDispatched, Some 2000000)]"
    by code_simp
  have c: "map (\<lambda>u. (op_status u, completed_at u))
        (operations (gateway_step 3000000 (QueueOperation sample_args) included_store))
       = [(OpQueued, None)]"
    by code_simp
  show ?thesis by (intro conjI r a r' b c)
qed

end
